theory Spec2Isabelle
  imports Main
begin

section \<open>Strings as the source sees them\<close>

text \<open>
  A line of the document is a \<open>string\<close>; one \<open>char\<close> stands for one code unit of the
  source's strings, so \<open>length\<close> is the source's \<open>.length\<close> on the 8-bit range.
  \<open>isSpace\<close> is the class \<open>\s\<close> of the regular expressions, which is also what
  \<open>String.prototype.trim\<close> removes: tab, line feed, vertical tab, form feed, carriage return,
  space and no-break space.  \<open>isLineTerminator\<close> is what the class \<open>.\<close> refuses.
\<close>

definition isSpace :: "char \<Rightarrow> bool" where
  "isSpace c = (c \<in> set [CHR 0x09, CHR 0x0A, CHR 0x0B, CHR 0x0C, CHR 0x0D, CHR 0x20, CHR 0xA0])"

definition isLineTerminator :: "char \<Rightarrow> bool" where
  "isLineTerminator c = (c = CHR 0x0A \<or> c = CHR 0x0D)"

definition isDigit :: "char \<Rightarrow> bool" where
  "isDigit c = (c \<in> set ''0123456789'')"

text \<open>\<open>text.trim()\<close>.\<close>

definition trim :: "string \<Rightarrow> string" where
  "trim s = rev (dropWhile isSpace (rev (dropWhile isSpace s)))"

text \<open>\<open>lines.join(sep)\<close>.\<close>

fun join :: "string \<Rightarrow> string list \<Rightarrow> string" where
  "join sep [] = []"
| "join sep [x] = x"
| "join sep (x # y # ys) = x @ sep @ join sep (y # ys)"

text \<open>
  \<open>s.split(/\s+/)\<close>: the pieces between the maximal runs of white space; the empty string
  gives one empty piece, and white space at either end gives an empty piece there.
\<close>

function split_ws :: "string \<Rightarrow> string list" where
  "split_ws s =
     (let w = takeWhile (\<lambda>c. \<not> isSpace c) s; r = dropWhile (\<lambda>c. \<not> isSpace c) s
      in if r = [] then [w] else w # split_ws (dropWhile isSpace r))"
  by pat_completeness auto
termination
proof (relation "measure length")
  show "wf (measure length)" by simp
next
  fix s :: string and w r
  assume r: "r = dropWhile (\<lambda>c. \<not> isSpace c) s" and ne: "r \<noteq> []"
  have "length (dropWhile isSpace r) < length r"
  proof (cases r)
    case Nil
    with ne show ?thesis by simp
  next
    case (Cons c cs)
    with r have "isSpace c"
      by (metis hd_dropWhile list.distinct(1) list.sel(1))
    with Cons have "dropWhile isSpace r = dropWhile isSpace cs" by simp
    with Cons show ?thesis
      by (simp add: length_dropWhile_le le_imp_less_Suc)
  qed
  moreover have "length r \<le> length s"
    unfolding r by (rule length_dropWhile_le)
  ultimately show "(dropWhile isSpace r, s) \<in> measure length" by simp
qed

declare split_ws.simps [simp del]

text \<open>\<open>document.lineAt(i)\<close> throws for a line that is not in the document.\<close>

definition lineAt :: "string list \<Rightarrow> nat \<Rightarrow> string option" where
  "lineAt document i = (if i < length document then Some (document ! i) else None)"

section \<open>Regular expressions\<close>

text \<open>
  The regular expressions of the source are kept as syntax trees and matched by
  derivatives.  Only \<open>RegExp.test\<close> is modelled here, so greedy and lazy quantifiers
  coincide.  An item of a character class is a character, a range, \<open>\s\<close> or \<open>\d\<close>.
\<close>

datatype citem = Ch char | Rg char char | Ws | Dg

fun inItem :: "char \<Rightarrow> citem \<Rightarrow> bool" where
  "inItem c (Ch a) = (c = a)"
| "inItem c (Rg a b) = ((of_char a :: nat) \<le> of_char c \<and> (of_char c :: nat) \<le> of_char b)"
| "inItem c Ws = isSpace c"
| "inItem c Dg = isDigit c"

datatype rx =
    Fail
  | Eps
  | In "citem list"
  | NotIn "citem list"
  | Dot
  | Seq rx rx
  | Alt rx rx
  | Star rx

fun nullable :: "rx \<Rightarrow> bool" where
  "nullable Fail = False"
| "nullable Eps = True"
| "nullable (In cs) = False"
| "nullable (NotIn cs) = False"
| "nullable Dot = False"
| "nullable (Seq r s) = (nullable r \<and> nullable s)"
| "nullable (Alt r s) = (nullable r \<or> nullable s)"
| "nullable (Star r) = True"

text \<open>Sequence and alternative that drop a branch that cannot match.\<close>

fun rseq :: "rx \<Rightarrow> rx \<Rightarrow> rx" where
  "rseq Fail s = Fail"
| "rseq r Fail = Fail"
| "rseq Eps s = s"
| "rseq r s = Seq r s"

fun ralt :: "rx \<Rightarrow> rx \<Rightarrow> rx" where
  "ralt Fail s = s"
| "ralt r Fail = r"
| "ralt r s = (if r = s then r else Alt r s)"

fun deriv :: "char \<Rightarrow> rx \<Rightarrow> rx" where
  "deriv c Fail = Fail"
| "deriv c Eps = Fail"
| "deriv c (In cs) = (if list_ex (inItem c) cs then Eps else Fail)"
| "deriv c (NotIn cs) = (if list_ex (inItem c) cs then Fail else Eps)"
| "deriv c Dot = (if isLineTerminator c then Fail else Eps)"
| "deriv c (Seq r s) =
     (if nullable r then ralt (rseq (deriv c r) s) (deriv c s) else rseq (deriv c r) s)"
| "deriv c (Alt r s) = ralt (deriv c r) (deriv c s)"
| "deriv c (Star r) = rseq (deriv c r) (Star r)"

text \<open>The whole string matches: a pattern anchored as \<open>^...$\<close>.\<close>

definition matchesAll :: "rx \<Rightarrow> string \<Rightarrow> bool" where
  "matchesAll r s = nullable (foldl (\<lambda>r c. deriv c r) r s)"

text \<open>A prefix of the string matches: a pattern anchored as \<open>^...\<close> only.\<close>

definition matchesStart :: "rx \<Rightarrow> string \<Rightarrow> bool" where
  "matchesStart r s = matchesAll (Seq r (Star (NotIn []))) s"

text \<open>Abbreviations for the quantifiers and for literal text.\<close>

definition rcat :: "rx list \<Rightarrow> rx" where
  "rcat rs = foldr Seq rs Eps"

definition rlit :: "string \<Rightarrow> rx" where
  "rlit s = rcat (map (\<lambda>c. In [Ch c]) s)"

definition rplus :: "rx \<Rightarrow> rx" where
  "rplus r = Seq r (Star r)"

definition ropt :: "rx \<Rightarrow> rx" where
  "ropt r = Alt r Eps"

text \<open>\<open>r{n}\<close>, \<open>r{n,}\<close> and \<open>r{n,m}\<close>.\<close>

definition rtimes :: "nat \<Rightarrow> rx \<Rightarrow> rx" where
  "rtimes n r = rcat (replicate n r)"

definition rAtLeast :: "nat \<Rightarrow> rx \<Rightarrow> rx" where
  "rAtLeast n r = Seq (rtimes n r) (Star r)"

definition rBetween :: "nat \<Rightarrow> nat \<Rightarrow> rx \<Rightarrow> rx" where
  "rBetween n m r = Seq (rtimes n r) (rtimes (m - n) (ropt r))"

abbreviation wsp :: rx where
  "wsp \<equiv> In [Ws]"

section \<open>reConsts.ts\<close>

text \<open>\<open>/^\s*import\s+(?:[^'";]+?\s+from\s+)?['"][^'"]+['"]\s*;?\s*$/\<close>\<close>

definition MDX_IMPORT_RE :: "string \<Rightarrow> bool" where
  "MDX_IMPORT_RE =
     matchesAll (rcat [Star wsp, rlit ''import'', rplus wsp,
       ropt (rcat [rplus (NotIn [Ch (CHR 0x27), Ch (CHR 0x22), Ch CHR '';'']), rplus wsp,
                 rlit ''from'', rplus wsp]),
       In [Ch (CHR 0x27), Ch (CHR 0x22)], rplus (NotIn [Ch (CHR 0x27), Ch (CHR 0x22)]),
       In [Ch (CHR 0x27), Ch (CHR 0x22)], Star wsp, ropt (rlit '';''), Star wsp])"

text \<open>\<open>/^\s*:::/\<close>\<close>

definition TRIPLE_COLON_RE :: "string \<Rightarrow> bool" where
  "TRIPLE_COLON_RE = matchesStart (rcat [Star wsp, rlit '':::''])"

text \<open>\<open>/^\s*<\/?[a-zA-Z][a-zA-Z0-9\-]*(?:\s[^>]*)?\/?>\s*$/\<close>\<close>

definition XML_TAG_ONLY_RE :: "string \<Rightarrow> bool" where
  "XML_TAG_ONLY_RE =
     matchesAll (rcat [Star wsp, rlit ''<'', ropt (rlit ''/''),
       In [Rg CHR ''a'' CHR ''z'', Rg CHR ''A'' CHR ''Z''],
       Star (In [Rg CHR ''a'' CHR ''z'', Rg CHR ''A'' CHR ''Z'', Rg CHR ''0'' CHR ''9'', Ch CHR ''-'']),
       ropt (rcat [wsp, Star (NotIn [Ch CHR ''>''])]),
       ropt (rlit ''/''), rlit ''>'', Star wsp])"

text \<open>\<open>/^\s*<!--.*?-->\s*$/\<close>\<close>

definition HTML_COMMENT_ONLY_RE :: "string \<Rightarrow> bool" where
  "HTML_COMMENT_ONLY_RE = matchesAll (rcat [Star wsp, rlit ''<!--'', Star Dot, rlit ''-->'', Star wsp])"

text \<open>\<open>/^\s*\[\^?[^\]]+\]:[ \t]+/\<close>\<close>

definition FOOTNOTE_DEF_RE :: "string \<Rightarrow> bool" where
  "FOOTNOTE_DEF_RE =
     matchesStart (rcat [Star wsp, rlit ''['', ropt (rlit ''^''), rplus (NotIn [Ch CHR '']'']),
       rlit '']:'', rplus (In [Ch CHR '' '', Ch (CHR 0x09)])])"

text \<open>\<open>/^\s*[-*]\s+\[[^\]]*\]\([^)]*\)\.?\s*$/\<close>\<close>

definition LIST_LINK_ONLY_RE :: "string \<Rightarrow> bool" where
  "LIST_LINK_ONLY_RE =
     matchesAll (rcat [Star wsp, In [Ch CHR ''-'', Ch CHR ''*''], rplus wsp,
       rlit ''['', Star (NotIn [Ch CHR '']'']), rlit '']'',
       rlit ''('', Star (NotIn [Ch CHR '')'']), rlit '')'', ropt (rlit ''.''), Star wsp])"

text \<open>\<open>/^\s*\|?\s*:?-{3,}:?\s*(\|\s*:?-{3,}:?\s*)+\|?\s*$/\<close>\<close>

definition MD_TABLE_SEPARATOR_RE :: "string \<Rightarrow> bool" where
  "MD_TABLE_SEPARATOR_RE =
     matchesAll (rcat [Star wsp, ropt (rlit ''|''), Star wsp,
       ropt (rlit '':''), rAtLeast 3 (rlit ''-''), ropt (rlit '':''), Star wsp,
       rplus (rcat [rlit ''|'', Star wsp, ropt (rlit '':''), rAtLeast 3 (rlit ''-''), ropt (rlit '':''),
                  Star wsp]),
       ropt (rlit ''|''), Star wsp])"

text \<open>\<open>/^\s*\|.*\|.*$/\<close>\<close>

definition MD_TABLE_ROW_RE :: "string \<Rightarrow> bool" where
  "MD_TABLE_ROW_RE = matchesAll (rcat [Star wsp, rlit ''|'', Star Dot, rlit ''|'', Star Dot])"

text \<open>
  \<open>/^\s{0,3}#{1,6}(?:\s|$)/\<close>: after the marks comes white space, or the string ends.
\<close>

definition ATX_HEADING_RE :: "string \<Rightarrow> bool" where
  "ATX_HEADING_RE s =
     (matchesStart (rcat [rBetween 0 3 wsp, rBetween 1 6 (rlit ''#''), wsp]) s \<or>
      matchesAll (rcat [rBetween 0 3 wsp, rBetween 1 6 (rlit ''#'')]) s)"

section \<open>Positions and ranges of the editor\<close>

datatype Position = Position (lineOf: nat) (characterOf: nat)

datatype Range = Range (startOf: Position) (endOf: Position)

definition isBeforeOrEqual :: "Position \<Rightarrow> Position \<Rightarrow> bool" where
  "isBeforeOrEqual p q =
     (lineOf p < lineOf q \<or> (lineOf p = lineOf q \<and> characterOf p \<le> characterOf q))"

text \<open>
  \<open>new vscode.Range(startLine, startCharacter, endLine, endCharacter)\<close>: the editor swaps
  the two positions when the first is after the second.
\<close>

definition newRange :: "nat \<Rightarrow> nat \<Rightarrow> nat \<Rightarrow> nat \<Rightarrow> Range" where
  "newRange sl sc el ec =
     (if isBeforeOrEqual (Position sl sc) (Position el ec)
      then Range (Position sl sc) (Position el ec)
      else Range (Position el ec) (Position sl sc))"

text \<open>\<open>range.contains(position)\<close> and \<open>range.contains(otherRange)\<close>.\<close>

definition containsPosition :: "Range \<Rightarrow> Position \<Rightarrow> bool" where
  "containsPosition r p = (isBeforeOrEqual (startOf r) p \<and> isBeforeOrEqual p (endOf r))"

definition containsRange :: "Range \<Rightarrow> Range \<Rightarrow> bool" where
  "containsRange r other = (containsPosition r (startOf other) \<and> containsPosition r (endOf other))"

section \<open>Front matter detector\<close>

text \<open>The loop that looks for the closing delimiter from line \<open>i\<close> on.\<close>

fun findClosing :: "(string \<Rightarrow> bool) \<Rightarrow> string list \<Rightarrow> nat \<Rightarrow> nat option" where
  "findClosing closing [] i = None"
| "findClosing closing (t # ts) i = (if closing t then Some i else findClosing closing ts (Suc i))"

definition getFrontMatterRange :: "string list \<Rightarrow> Range option" where
  "getFrontMatterRange document =
     (if length document = 0 then None
      else
        let first = length (takeWhile (\<lambda>t. trim t = []) document) in
        if first \<ge> length document then None
        else
          let firstText = document ! first;
              isYaml = matchesAll (rcat [Star wsp, rlit ''---'', Star wsp]) firstText;
              isToml = matchesAll (rcat [Star wsp, rlit ''+++'', Star wsp]) firstText
          in if \<not> isYaml \<and> \<not> isToml then None
             else
               let closing =
                     (if isYaml
                      then matchesAll (rcat [Star wsp, Alt (rlit ''---'') (rlit ''...''), Star wsp])
                      else matchesAll (rcat [Star wsp, rlit ''+++'', Star wsp]))
               in case findClosing closing (drop (first + 1) document) (first + 1) of
                    Some i \<Rightarrow> Some (newRange first 0 i (length (document ! i)))
                  | None \<Rightarrow>
                      let lastLine = length document - 1
                      in Some (newRange first 0 lastLine (length (document ! lastLine))))"

section \<open>Fenced code block detector\<close>

text \<open>
  \<open>text.match(/^\s{0,3}(`{3,}|~{3,})/)\<close>: the fence character and the length of the
  captured run.  The run is greedy, so it is the whole run of that character; more than
  three white-space characters in front leave no match.
\<close>

definition matchOpenFence :: "string \<Rightarrow> (char \<times> nat) option" where
  "matchOpenFence text =
     (let r = dropWhile isSpace text in
      if length (takeWhile isSpace text) \<le> 3 \<and> r \<noteq> [] \<and>
         (hd r = CHR 0x60 \<or> hd r = CHR ''~'') \<and> length (takeWhile (\<lambda>c. c = hd r) r) \<ge> 3
      then Some (hd r, length (takeWhile (\<lambda>c. c = hd r) r)) else None)"

text \<open>\<open>new RegExp(`^\\s{0,3}${fenceChar}{${fenceLen},}\\s*$`)\<close>\<close>

definition closeRe :: "char \<Rightarrow> nat \<Rightarrow> string \<Rightarrow> bool" where
  "closeRe fenceChar fenceLen =
     matchesAll (rcat [rBetween 0 3 wsp, rAtLeast fenceLen (In [Ch fenceChar]), Star wsp])"

text \<open>
  The variables of the scan.  Outside a block \<open>fenceChar\<close> is the empty string in the source
  and is not read before the next opening fence sets it; it is the character 0 here.  The
  steps are only taken at lines of the document, so \<open>document ! i\<close> is \<open>lineAt(i).text\<close>.
\<close>

record FenceState =
  ranges :: "Range list"
  inBlock :: bool
  blockStart :: nat
  fenceChar :: char
  fenceLen :: nat

definition fenceStep :: "string list \<Rightarrow> FenceState \<Rightarrow> nat \<Rightarrow> FenceState" where
  "fenceStep document st i =
     (let text = document ! i in
      if \<not> inBlock st then
        (case matchOpenFence text of
           Some (c, n) \<Rightarrow> st\<lparr>fenceChar := c, fenceLen := n, inBlock := True, blockStart := i\<rparr>
         | None \<Rightarrow> st)
      else if closeRe (fenceChar st) (fenceLen st) text then
        st\<lparr>ranges := ranges st @ [newRange (blockStart st) 0 i (length (document ! i))],
           inBlock := False, fenceChar := CHR 0x00, fenceLen := 0\<rparr>
      else st)"

definition getFencedCodeBlockRanges :: "string list \<Rightarrow> Range list" where
  "getFencedCodeBlockRanges document =
     (let st = foldl (fenceStep document)
                 \<lparr>ranges = [], inBlock = False, blockStart = 0, fenceChar = CHR 0x00, fenceLen = 0\<rparr>
                 [0 ..< length document]
      in if inBlock st then
           (let last = length document - 1
            in ranges st @ [newRange (blockStart st) 0 last (length (document ! last))])
         else ranges st)"

text \<open>\<open>ranges.find(r => line >= r.start.line && line <= r.end.line)\<close>\<close>

definition findRangeContainingLine :: "Range list \<Rightarrow> nat \<Rightarrow> Range option" where
  "findRangeContainingLine rs line =
     find (\<lambda>r. line \<ge> lineOf (startOf r) \<and> line \<le> lineOf (endOf r)) rs"

definition rangeOverlapsAny :: "nat \<Rightarrow> nat \<Rightarrow> Range list \<Rightarrow> bool" where
  "rangeOverlapsAny startLine endLine rs =
     list_ex (\<lambda>r. \<not> (endLine < lineOf (startOf r) \<or> startLine > lineOf (endOf r))) rs"

section \<open>Bracket-expression balancer\<close>

text \<open>
  The scan of one line, character by character, on what is left of the line.  The state is
  \<open>(inInline, inlineTickRun, depth, lineInside)\<close>; a run of backticks is consumed whole.
\<close>

function scanLine :: "string \<Rightarrow> bool \<times> nat \<times> int \<times> bool \<Rightarrow> int \<times> bool" where
  "scanLine [] (inInline, inlineTickRun, depth, lineInside) = (depth, lineInside)"
| "scanLine (ch # rest) (inInline, inlineTickRun, depth, lineInside) =
     (if ch = CHR 0x60 then
        (let run = 1 + length (takeWhile (\<lambda>c. c = CHR 0x60) rest);
             rest' = dropWhile (\<lambda>c. c = CHR 0x60) rest
         in if \<not> inInline then scanLine rest' (True, run, depth, lineInside)
            else if run \<ge> inlineTickRun then scanLine rest' (False, 0, depth, lineInside)
            else scanLine rest' (inInline, inlineTickRun, depth, lineInside))
      else if inInline then scanLine rest (inInline, inlineTickRun, depth, lineInside)
      else if ch = CHR ''{'' then scanLine rest (inInline, inlineTickRun, depth + 1, True)
      else if ch = CHR ''}'' then
        scanLine rest (inInline, inlineTickRun, max 0 (depth - 1), lineInside)
      else scanLine rest (inInline, inlineTickRun, depth, lineInside))"
  by pat_completeness auto
termination
  by (relation "measure (\<lambda>(s, st). length s)")
     (auto simp: length_dropWhile_le le_imp_less_Suc)

text \<open>
  The variables of the outer loop.  A range is only in progress after its first line, so
  the line \<open>i - 1\<close> whose length closes a range is a line of the document.
\<close>

record JsxState =
  jsxRanges :: "Range list"
  depth :: int
  currentStart :: "nat option"

definition jsxStep :: "Range list \<Rightarrow> string list \<Rightarrow> JsxState \<Rightarrow> nat \<Rightarrow> JsxState" where
  "jsxStep fencedRanges document st i =
     (if findRangeContainingLine fencedRanges i \<noteq> None then
        (case currentStart st of
           Some s \<Rightarrow>
             st\<lparr>jsxRanges := jsxRanges st @ [newRange s 0 (i - 1) (length (document ! (i - 1)))],
                currentStart := None\<rparr>
         | None \<Rightarrow> st)
      else
        (case scanLine (document ! i) (False, 0, depth st, depth st > 0) of
           (depth', lineInside) \<Rightarrow>
             if lineInside then
               (case currentStart st of
                  None \<Rightarrow> st\<lparr>depth := depth', currentStart := Some i\<rparr>
                | Some s \<Rightarrow> st\<lparr>depth := depth'\<rparr>)
             else
               (case currentStart st of
                  Some s \<Rightarrow>
                    st\<lparr>jsxRanges :=
                         jsxRanges st @ [newRange s 0 (i - 1) (length (document ! (i - 1)))],
                       depth := depth', currentStart := None\<rparr>
                | None \<Rightarrow> st\<lparr>depth := depth'\<rparr>)))"

definition getJsxExpressionRanges :: "string list \<Rightarrow> Range list \<Rightarrow> Range list" where
  "getJsxExpressionRanges document fencedRanges =
     (let st = foldl (jsxStep fencedRanges document)
                 \<lparr>jsxRanges = [], depth = 0, currentStart = None\<rparr> [0 ..< length document]
      in case currentStart st of
           Some s \<Rightarrow>
             (let last = length document - 1
              in jsxRanges st @ [newRange s 0 last (length (document ! last))])
         | None \<Rightarrow> jsxRanges st)"

section \<open>Structural line classifier\<close>

text \<open>The three values of \<open>LineContext.type\<close>: 'list', 'blockquote', 'paragraph'.\<close>

datatype LineType = ListLine | BlockquoteLine | ParagraphLine

record LineContext =
  type :: LineType
  indent :: string
  prefix :: string
  content :: string

text \<open>
  The alternative \<open>([*\-+]|\d+\.)\<close> at the head of a string: the token and what follows it.
\<close>

definition matchBullet :: "string \<Rightarrow> (string \<times> string) option" where
  "matchBullet r =
     (case r of
        [] \<Rightarrow> None
      | c # cs \<Rightarrow>
          if c \<in> set ''*-+'' then Some ([c], cs)
          else (let ds = takeWhile isDigit r; rest = dropWhile isDigit r
                in if ds \<noteq> [] \<and> rest \<noteq> [] \<and> hd rest = CHR ''.''
                   then Some (ds @ ''.'', tl rest) else None))"

text \<open>
  \<open>text.match(/^(\s*)([*\-+]|\d+\.)\s+(.*)$/)\<close>, the three groups.  Every quantifier is
  greedy and what follows it starts with a character the quantified class excludes, or is
  \<open>(.*)$\<close>, which has to reach the end of the string: giving a character back never turns a
  failure into a match, so the groups are the maximal runs.
\<close>

definition matchList :: "string \<Rightarrow> (string \<times> string \<times> string) option" where
  "matchList text =
     (case matchBullet (dropWhile isSpace text) of
        None \<Rightarrow> None
      | Some (tok, r) \<Rightarrow>
          if r \<noteq> [] \<and> isSpace (hd r) \<and> list_all (\<lambda>c. \<not> isLineTerminator c) (dropWhile isSpace r)
          then Some (takeWhile isSpace text, tok, dropWhile isSpace r) else None)"

text \<open>\<open>text.match(/^(\s*)(>+)\s*(.*)$/)\<close>, the three groups.\<close>

definition matchBlockquote :: "string \<Rightarrow> (string \<times> string \<times> string) option" where
  "matchBlockquote text =
     (let r = dropWhile isSpace text;
          q = takeWhile (\<lambda>c. c = CHR ''>'') r;
          rest = dropWhile isSpace (dropWhile (\<lambda>c. c = CHR ''>'') r)
      in if q \<noteq> [] \<and> list_all (\<lambda>c. \<not> isLineTerminator c) rest
         then Some (takeWhile isSpace text, q, rest) else None)"

definition getLineContext :: "string \<Rightarrow> LineContext" where
  "getLineContext text =
     (case matchList text of
        Some (i, p, c) \<Rightarrow> \<lparr>type = ListLine, indent = i, prefix = p, content = c\<rparr>
      | None \<Rightarrow>
          (case matchBlockquote text of
             Some (i, p, c) \<Rightarrow> \<lparr>type = BlockquoteLine, indent = i, prefix = p, content = c\<rparr>
           | None \<Rightarrow>
               \<lparr>type = ParagraphLine, indent = takeWhile isSpace text, prefix = [],
                content = trim text\<rparr>))"

section \<open>Reflow engine\<close>

text \<open>The loop "Collect all text": the content of every line from startLine to endLine.\<close>

definition collectContents :: "string list \<Rightarrow> nat \<Rightarrow> nat \<Rightarrow> string list option" where
  "collectContents document startLine endLine =
     those (map (\<lambda>i. map_option (\<lambda>t. content (getLineContext t)) (lineAt document i))
                [startLine ..< Suc endLine])"

text \<open>"Join and split words".\<close>

definition splitWords :: "string list \<Rightarrow> string list" where
  "splitWords lines = split_ws (trim (join '' '' lines))"

definition prefixLength :: "LineContext \<Rightarrow> nat" where
  "prefixLength context =
     length (indent context) + (if prefix context \<noteq> [] then length (prefix context) + 1 else 0)"

definition effectiveLength :: "LineContext \<Rightarrow> int \<Rightarrow> int" where
  "effectiveLength context preferredLineLength = preferredLineLength - int (prefixLength context)"

text \<open>
  One turn of the loop over the words; the state is \<open>(reflowedLines, currentLine)\<close>.
\<close>

definition fillStep :: "int \<Rightarrow> string list \<times> string \<Rightarrow> string \<Rightarrow> string list \<times> string" where
  "fillStep eff st word =
     (case st of (reflowedLines, currentLine) \<Rightarrow>
        if currentLine = [] then (reflowedLines, word)
        else if int (length (currentLine @ '' '' @ word)) \<le> eff
             then (reflowedLines, currentLine @ '' '' @ word)
        else (reflowedLines @ [currentLine], word))"

definition fillLines :: "int \<Rightarrow> string list \<Rightarrow> string list" where
  "fillLines eff ws =
     (case foldl (fillStep eff) ([], []) ws of
        (reflowedLines, currentLine) \<Rightarrow>
          if currentLine \<noteq> [] then reflowedLines @ [currentLine] else reflowedLines)"

text \<open>"Add prefix back": what is put in front of the output line with the given index.\<close>

definition linePrefix :: "LineContext \<Rightarrow> nat \<Rightarrow> string" where
  "linePrefix context index =
     (if type context = ListLine then
        (if index = 0 then indent context @ prefix context @ '' ''
         else indent context @ replicate (length (prefix context) + 1) CHR '' '')
      else if type context = BlockquoteLine then indent context @ prefix context @ '' ''
      else indent context)"

definition reflowLines :: "string list \<Rightarrow> nat \<Rightarrow> nat \<Rightarrow> int \<Rightarrow> string list option" where
  "reflowLines document startLine endLine preferredLineLength =
     (case lineAt document startLine of
        None \<Rightarrow> None
      | Some first \<Rightarrow>
          (let context = getLineContext first in
           case collectContents document startLine endLine of
             None \<Rightarrow> None
           | Some lines \<Rightarrow>
               Some (map (\<lambda>(index, line). linePrefix context index @ line)
                         (enumerate 0 (fillLines (effectiveLength context preferredLineLength)
                                                 (splitWords lines))))))"

section \<open>Settings and the functions of the module \<open>testable\<close>\<close>

text \<open>
  The settings object that \<open>getSettings\<close> builds, with the preferred line length, which
  the interactive command reads, and the two switches.
\<close>

record Settings =
  preferredLineLength :: int
  doubleSpaceBetweenSentences :: bool
  neverReflowFirstParagraph :: bool

text \<open>
  extension.ts imports \<open>getStartLine\<close>, \<open>getEndLine\<close> and \<open>getReflowedText\<close> from the
  module \<open>testable\<close>, which is not among the sources.  They are parameters of the model:
  \<open>getStartLine document i\<close> and \<open>getEndLine document i\<close> are the line numbers of the lines
  that \<open>getStartLine(lineAtFunc, midLine)\<close> and \<open>getEndLine(lineAtFunc, midLine,
  lineCount - 1, o)\<close> return for the line \<open>i\<close>, and \<open>getReflowedText document i (s, e) text
  settings\<close> is the text returned for the extent \<open>(s, e)\<close> resolved at line \<open>i\<close> (the
  \<open>OtherInfo\<close> object it receives is computed from the document and that line).
\<close>

record Testable =
  getStartLine :: "string list \<Rightarrow> nat \<Rightarrow> nat"
  getEndLine :: "string list \<Rightarrow> nat \<Rightarrow> nat"
  getReflowedText :: "string list \<Rightarrow> nat \<Rightarrow> nat \<times> nat \<Rightarrow> string \<Rightarrow> Settings \<Rightarrow> string"

section \<open>Text of a range\<close>

text \<open>
  \<open>document.getText(range)\<close>: the editor first moves both positions into the document (a
  line past the end becomes the end of the last line, a character past the end of its line
  becomes the end of that line); lines are joined by line feeds.
\<close>

definition validatePosition :: "string list \<Rightarrow> Position \<Rightarrow> Position" where
  "validatePosition document p =
     (if lineOf p \<ge> length document
      then Position (length document - 1) (length (document ! (length document - 1)))
      else Position (lineOf p) (min (characterOf p) (length (document ! lineOf p))))"

definition getText :: "string list \<Rightarrow> Range \<Rightarrow> string" where
  "getText document r =
     (if document = [] then []
      else
        let s = validatePosition document (startOf r); e = validatePosition document (endOf r)
        in if lineOf s = lineOf e
           then take (characterOf e - characterOf s) (drop (characterOf s) (document ! lineOf s))
           else join [CHR 0x0A]
                  ([drop (characterOf s) (document ! lineOf s)] @
                   map (\<lambda>k. document ! k) [lineOf s + 1 ..< lineOf e] @
                   [take (characterOf e) (document ! lineOf e)]))"

section \<open>Skip-policy evaluator\<close>

text \<open>
  The loops \<open>for (let i = startLine; i <= endLine; i++) if (RE.test(document.lineAt(i).text))
  return true\<close>, over the list of the line numbers; \<open>None\<close> is the exception of \<open>lineAt\<close>.
\<close>

fun anyLineIn :: "(string \<Rightarrow> bool) \<Rightarrow> string list \<Rightarrow> nat list \<Rightarrow> bool option" where
  "anyLineIn test document [] = Some False"
| "anyLineIn test document (i # rest) =
     (case lineAt document i of
        None \<Rightarrow> None
      | Some t \<Rightarrow> if test t then Some True else anyLineIn test document rest)"

definition paragraphHasMdxImport :: "string list \<Rightarrow> nat \<Rightarrow> nat \<Rightarrow> bool option" where
  "paragraphHasMdxImport document startLine endLine =
     anyLineIn MDX_IMPORT_RE document [startLine ..< Suc endLine]"

definition paragraphHasFootnoteDef :: "string list \<Rightarrow> nat \<Rightarrow> nat \<Rightarrow> bool option" where
  "paragraphHasFootnoteDef document startLine endLine =
     anyLineIn FOOTNOTE_DEF_RE document [startLine ..< Suc endLine]"

definition paragraphHasListLinkOnly :: "string list \<Rightarrow> nat \<Rightarrow> nat \<Rightarrow> bool option" where
  "paragraphHasListLinkOnly document startLine endLine =
     anyLineIn LIST_LINK_ONLY_RE document [startLine ..< Suc endLine]"

definition paragraphHasMarkdownTable :: "string list \<Rightarrow> nat \<Rightarrow> nat \<Rightarrow> bool option" where
  "paragraphHasMarkdownTable document startLine endLine =
     anyLineIn (\<lambda>t. MD_TABLE_SEPARATOR_RE t \<or> MD_TABLE_ROW_RE t) document
       [startLine ..< Suc endLine]"

definition paragraphHasAtxHeading :: "string list \<Rightarrow> nat \<Rightarrow> nat \<Rightarrow> bool option" where
  "paragraphHasAtxHeading document startLine endLine =
     anyLineIn ATX_HEADING_RE document [startLine ..< Suc endLine]"

definition lineStartsWithTripleColon :: "string \<Rightarrow> bool" where
  "lineStartsWithTripleColon text = TRIPLE_COLON_RE text"

definition lineIsXmlTagOnly :: "string \<Rightarrow> bool" where
  "lineIsXmlTagOnly text = (XML_TAG_ONLY_RE text \<or> HTML_COMMENT_ONLY_RE text)"

text \<open>
  \<open>getFirstContentParagraphRange\<close>; the outer \<open>None\<close> is an exception of \<open>lineAt\<close>, the
  inner one is \<open>undefined\<close>.
\<close>

definition getFirstContentParagraphRange :: "Testable \<Rightarrow> string list \<Rightarrow> Range option option" where
  "getFirstContentParagraphRange T document =
     (let fm = getFrontMatterRange document;
          lineCount = length document;
          i0 = (case fm of Some r \<Rightarrow> lineOf (endOf r) + 1 | None \<Rightarrow> 0);
          i = i0 + length (takeWhile (\<lambda>t. trim t = [] \<or> MDX_IMPORT_RE t) (drop i0 document))
      in if i \<ge> lineCount then Some None
         else
           let s = getStartLine T document i; e = getEndLine T document i
           in case lineAt document e of
                None \<Rightarrow> None
              | Some t \<Rightarrow> Some (Some (newRange s 0 e (length t))))"

text \<open>
  A sequence of checks, each of which returns true, goes on to the next, or throws: \<open>orElse a
  b\<close> evaluates \<open>b\<close> only when \<open>a\<close> is false.
\<close>

definition orElse :: "bool option \<Rightarrow> bool option \<Rightarrow> bool option" where
  "orElse a b = (case a of None \<Rightarrow> None | Some True \<Rightarrow> Some True | Some False \<Rightarrow> b)"

record ParagraphSkipContext =
  document :: "string list"
  lineStart :: nat
  lineEnd :: nat
  fencedRanges :: "Range list"
  jsxExprRanges :: "Range list"
  frontMatterRange :: "Range option"
  settings :: Settings

definition shouldSkipParagraph :: "Testable \<Rightarrow> ParagraphSkipContext \<Rightarrow> bool option" where
  "shouldSkipParagraph T ctx =
     orElse (Some (case frontMatterRange ctx of
                     Some fm \<Rightarrow> \<not> (lineEnd ctx < lineOf (startOf fm) \<or>
                                    lineStart ctx > lineOf (endOf fm))
                   | None \<Rightarrow> False))
    (orElse (Some (rangeOverlapsAny (lineStart ctx) (lineEnd ctx) (fencedRanges ctx) \<or>
                   rangeOverlapsAny (lineStart ctx) (lineEnd ctx) (jsxExprRanges ctx)))
    (orElse (paragraphHasAtxHeading (document ctx) (lineStart ctx) (lineEnd ctx))
    (orElse (paragraphHasMdxImport (document ctx) (lineStart ctx) (lineEnd ctx))
    (orElse (paragraphHasFootnoteDef (document ctx) (lineStart ctx) (lineEnd ctx))
    (orElse (paragraphHasMarkdownTable (document ctx) (lineStart ctx) (lineEnd ctx))
    (orElse (paragraphHasListLinkOnly (document ctx) (lineStart ctx) (lineEnd ctx))
    (orElse (if neverReflowFirstParagraph (settings ctx) then
               (case getFirstContentParagraphRange T (document ctx) of
                  None \<Rightarrow> None
                | Some None \<Rightarrow> Some False
                | Some (Some firstPara) \<Rightarrow>
                    Some (\<not> (lineEnd ctx < lineOf (startOf firstPara) \<or>
                             lineStart ctx > lineOf (endOf firstPara))))
             else Some False)
    (orElse (if lineStart ctx = lineEnd ctx
             then map_option lineStartsWithTripleColon (lineAt (document ctx) (lineStart ctx))
             else Some False)
            (if lineStart ctx = lineEnd ctx
             then map_option lineIsXmlTagOnly (lineAt (document ctx) (lineStart ctx))
             else Some False)))))))))"

section \<open>Edit planner\<close>

datatype TextEdit = TextEdit (editRange: Range) (newText: string)

text \<open>What a function that may throw gives back.\<close>

datatype 'a outcome = Threw | Returned 'a

text \<open>What one turn of the planning loop does with the cursor and the edits.\<close>

datatype step = Continue nat "TextEdit list" | Break "TextEdit list" | Throw

text \<open>
  The body of \<open>while (i <= endLine)\<close> in \<open>computeReflowEdits\<close>, at cursor \<open>i\<close>.  The bound
  \<open>endLine\<close> is an integer: it is \<open>-1\<close> for a whole-document pass over no lines.
\<close>

definition planStep ::
  "Testable \<Rightarrow> Settings \<Rightarrow> string list \<Rightarrow> Range option \<Rightarrow> Range list \<Rightarrow> Range list \<Rightarrow>
   bool \<Rightarrow> nat \<Rightarrow> int \<Rightarrow> nat \<Rightarrow> TextEdit list \<Rightarrow> step" where
  "planStep T cfg doc fm fenced jsxExpr hasRange startLine endLine i edits =
     (if (case fm of Some r \<Rightarrow> i \<ge> lineOf (startOf r) \<and> i \<le> lineOf (endOf r) | None \<Rightarrow> False)
      then Continue (lineOf (endOf (the fm)) + 1) edits
      else case findRangeContainingLine fenced i of
        Some fencedRange \<Rightarrow> Continue (lineOf (endOf fencedRange) + 1) edits
      | None \<Rightarrow>
     (case findRangeContainingLine jsxExpr i of
        Some jsxRange \<Rightarrow> Continue (lineOf (endOf jsxRange) + 1) edits
      | None \<Rightarrow>
     (case lineAt doc i of
        None \<Rightarrow> Throw
      | Some midLine \<Rightarrow>
          let s = getStartLine T doc i; e = getEndLine T doc i in
          if hasRange \<and> e < startLine then Continue (e + 1) edits
          else if hasRange \<and> int s > endLine then Break edits
          else if hasRange \<and> (s < startLine \<or> int e > endLine) then Continue (e + 1) edits
          else
            (case shouldSkipParagraph T
                    \<lparr>document = doc, lineStart = s, lineEnd = e, fencedRanges = fenced,
                     jsxExprRanges = jsxExpr, frontMatterRange = fm, settings = cfg\<rparr> of
               None \<Rightarrow> Throw
             | Some True \<Rightarrow> Continue (e + 1) edits
             | Some False \<Rightarrow>
                 (case lineAt doc e of
                    None \<Rightarrow> Throw
                  | Some lastText \<Rightarrow>
                      let rng = newRange s 0 e (length lastText);
                          original = getText doc rng;
                          reflowed = getReflowedText T doc i (s, e) original cfg
                      in Continue (e + 1)
                           (if original \<noteq> reflowed then edits @ [TextEdit rng reflowed]
                            else edits))))))"

text \<open>The loop itself; \<open>None\<close> is a loop that does not end.\<close>

partial_function (option) planLoop ::
  "(nat \<Rightarrow> TextEdit list \<Rightarrow> step) \<Rightarrow> int \<Rightarrow> nat \<Rightarrow> TextEdit list \<Rightarrow> TextEdit list outcome option"
where
  "planLoop body endLine i edits =
     (if int i \<le> endLine then
        (case body i edits of
           Continue i' edits' \<Rightarrow> planLoop body endLine i' edits'
         | Break edits' \<Rightarrow> Some (Returned edits')
         | Throw \<Rightarrow> Some Threw)
      else Some (Returned edits))"

declare planLoop.simps [code]

definition computeReflowEdits ::
  "Testable \<Rightarrow> string list \<Rightarrow> Range option \<Rightarrow> Settings \<Rightarrow> TextEdit list outcome option" where
  "computeReflowEdits T doc targetRange cfg =
     (let fm = getFrontMatterRange doc;
          fenced = getFencedCodeBlockRanges doc;
          jsxExpr = getJsxExpressionRanges doc fenced;
          hasRange = (targetRange \<noteq> None);
          startLine = (case targetRange of Some r \<Rightarrow> lineOf (startOf r) | None \<Rightarrow> 0);
          endLine = (case targetRange of Some r \<Rightarrow> int (lineOf (endOf r))
                     | None \<Rightarrow> int (length doc) - 1);
          i = (case fm of
                 Some r \<Rightarrow> if \<not> hasRange then max startLine (lineOf (endOf r) + 1) else startLine
               | None \<Rightarrow> startLine)
      in if hasRange \<and> (case fm of Some r \<Rightarrow> containsRange r (the targetRange) | None \<Rightarrow> False)
         then Some (Returned [])
         else planLoop (planStep T cfg doc fm fenced jsxExpr hasRange startLine endLine)
                endLine i [])"

section \<open>The interactive command\<close>

text \<open>
  \<open>reflow()\<close> for an editor showing \<open>doc\<close> with the cursor at \<open>position\<close>: the replacement it
  asks the editor to make, or nothing.
\<close>

definition reflow :: "Testable \<Rightarrow> Settings \<Rightarrow> string list \<Rightarrow> Position \<Rightarrow> TextEdit option outcome" where
  "reflow T cfg doc position =
     (let fm = getFrontMatterRange doc in
      if (case fm of Some r \<Rightarrow> containsPosition r position | None \<Rightarrow> False) then Returned None
      else
        let fenced = getFencedCodeBlockRanges doc;
            jsxExpr = getJsxExpressionRanges doc fenced
        in if findRangeContainingLine fenced (lineOf position) \<noteq> None then Returned None
           else if findRangeContainingLine jsxExpr (lineOf position) \<noteq> None then Returned None
           else case lineAt doc (lineOf position) of
             None \<Rightarrow> Threw
           | Some text \<Rightarrow>
               if ATX_HEADING_RE text then Returned None
               else
                 let s = getStartLine T doc (lineOf position);
                     e = getEndLine T doc (lineOf position)
                 in case shouldSkipParagraph T
                           \<lparr>document = doc, lineStart = s, lineEnd = e, fencedRanges = fenced,
                            jsxExprRanges = jsxExpr, frontMatterRange = fm, settings = cfg\<rparr> of
                      None \<Rightarrow> Threw
                    | Some True \<Rightarrow> Returned None
                    | Some False \<Rightarrow>
                        (case reflowLines doc s e (preferredLineLength cfg) of
                           None \<Rightarrow> Threw
                         | Some reflowedLines \<Rightarrow>
                             (case lineAt doc e of
                                None \<Rightarrow> Threw
                              | Some lastText \<Rightarrow>
                                  Returned (Some (TextEdit (newRange s 0 e (length lastText))
                                                    (join [CHR 0x0A] reflowedLines))))))"

section \<open>Vocabulary of the properties\<close>


text \<open>
  The white-space-normalised word sequence of a string, and of a list of lines (joined by
  line feeds, as the replacement text is): the non-empty pieces between runs of white space.
\<close>

definition wordsOf :: "string \<Rightarrow> string list" where
  "wordsOf s = filter (\<lambda>w. w \<noteq> []) (split_ws s)"


text \<open>A word: not empty and free of white space.\<close>

definition isWord :: "string \<Rightarrow> bool" where
  "isWord w = (w \<noteq> [] \<and> list_all (\<lambda>c. \<not> isSpace c) w)"

text \<open>
  The lines of the text that replaces the unit, \<open>reflowedLines.join('\n')\<close>, as the document
  holds them afterwards: the empty text is one empty line.
\<close>

definition producedLines :: "string list \<Rightarrow> string list" where
  "producedLines out = (if out = [] then [[]] else out)"

text \<open>
  A string that \<open>getLineContext\<close> reads as a plain paragraph line: neither pattern matches.
  \<open>keepsContent\<close> says of the output line with the given index that the classifier reads
  its content back: always for a blockquote unit and for the first line of a list unit, and
  otherwise when the content does not itself start like a list item or a blockquote.
\<close>

definition readsAsParagraph :: "string \<Rightarrow> bool" where
  "readsAsParagraph l = (matchList l = None \<and> matchBlockquote l = None)"

definition keepsContent :: "LineContext \<Rightarrow> nat \<Rightarrow> string \<Rightarrow> bool" where
  "keepsContent context index l =
     (type context = BlockquoteLine \<or> (type context = ListLine \<and> index = 0) \<or> readsAsParagraph l)"

text \<open>What the fill loop produces: a line that starts and ends with a word and stays on one line.\<close>

definition isLine :: "string \<Rightarrow> bool" where
  "isLine l = (l \<noteq> [] \<and> \<not> isSpace (hd l) \<and> \<not> isSpace (last l) \<and>
               list_all (\<lambda>c. \<not> isLineTerminator c) l)"


text \<open>
  A range none of whose lines lies in a fenced range, and what the scan of the bracket
  balancer keeps true before line \<open>n\<close>: the closed ranges are outside the fences, and so is
  every line from the start of the range in progress.
\<close>

definition outsideFences :: "Range list \<Rightarrow> Range \<Rightarrow> bool" where
  "outsideFences fenced r =
     (\<forall>l. lineOf (startOf r) \<le> l \<and> l \<le> lineOf (endOf r) \<longrightarrow>
          findRangeContainingLine fenced l = None)"

definition jsxInv :: "Range list \<Rightarrow> nat \<Rightarrow> JsxState \<Rightarrow> bool" where
  "jsxInv fenced n st =
     ((\<forall>r\<in>set (jsxRanges st). outsideFences fenced r) \<and>
      (\<forall>s. currentStart st = Some s \<longrightarrow>
           s < n \<and> (\<forall>l. s \<le> l \<and> l < n \<longrightarrow> findRangeContainingLine fenced l = None)))"

text \<open>
  The brace depth with which the scan of the bracket balancer reaches line \<open>n\<close>: a fenced
  line is passed over and leaves the depth as it is, every other line is scanned from the
  depth before it.  A line is inside an expression when it is outside the fences and the
  scan of the line, entered with that depth, says so: the depth is positive at the start of
  the line, or a brace opens on it.
\<close>

primrec depthBefore :: "Range list \<Rightarrow> string list \<Rightarrow> nat \<Rightarrow> int" where
  "depthBefore fenced doc 0 = 0"
| "depthBefore fenced doc (Suc n) =
     (if findRangeContainingLine fenced n \<noteq> None then depthBefore fenced doc n
      else fst (scanLine (doc ! n)
                  (False, 0, depthBefore fenced doc n, depthBefore fenced doc n > 0)))"

definition insideLine :: "Range list \<Rightarrow> string list \<Rightarrow> nat \<Rightarrow> bool" where
  "insideLine fenced doc i =
     (findRangeContainingLine fenced i = None \<and>
      snd (scanLine (doc ! i)
             (False, 0, depthBefore fenced doc i, depthBefore fenced doc i > 0)))"

text \<open>
  A list of ranges covers a line when one of them contains it.  \<open>jsxScanInv\<close> is what the
  scan keeps true before line \<open>n\<close>: the counter is \<open>depthBefore\<close>; the closed ranges cover
  only lines before \<open>n\<close> that are inside an expression; every line from the start of the
  range in progress is inside an expression; and every line before \<open>n\<close> that is inside an
  expression is covered by a closed range or by the range in progress.
\<close>

definition coversLine :: "Range list \<Rightarrow> nat \<Rightarrow> bool" where
  "coversLine rs k = (\<exists>r\<in>set rs. lineOf (startOf r) \<le> k \<and> k \<le> lineOf (endOf r))"

definition jsxScanInv :: "Range list \<Rightarrow> string list \<Rightarrow> nat \<Rightarrow> JsxState \<Rightarrow> bool" where
  "jsxScanInv fenced doc n st =
     (depth st = depthBefore fenced doc n \<and>
      (\<forall>k. coversLine (jsxRanges st) k \<longrightarrow> k < n \<and> insideLine fenced doc k) \<and>
      (\<forall>s. currentStart st = Some s \<longrightarrow>
           s < n \<and> (\<forall>k. s \<le> k \<and> k < n \<longrightarrow> insideLine fenced doc k)) \<and>
      (\<forall>k. k < n \<and> insideLine fenced doc k \<longrightarrow>
           coversLine (jsxRanges st) k \<or> (\<exists>s. currentStart st = Some s \<and> s \<le> k)))"

text \<open>
  What the planner needs of the absent resolver: the extent resolved at a line of the
  document starts at or before that line and ends at or after it (the unit a line belongs
  to contains the line).
\<close>

definition resolvesAround :: "Testable \<Rightarrow> string list \<Rightarrow> bool" where
  "resolvesAround T doc =
     (\<forall>i<length doc. getStartLine T doc i \<le> i \<and> i \<le> getEndLine T doc i)"

text \<open>
  An edit as the planning loop emits it: the range from the start to the end of an extent
  resolved at a line of the document, inside the requested range when there is one, for
  which \<open>shouldSkipParagraph\<close> returned false.
\<close>

definition plannedEdit ::
  "Testable \<Rightarrow> Settings \<Rightarrow> string list \<Rightarrow> Range option \<Rightarrow> Range list \<Rightarrow> Range list \<Rightarrow>
   bool \<Rightarrow> nat \<Rightarrow> int \<Rightarrow> TextEdit \<Rightarrow> bool" where
  "plannedEdit T cfg doc fm fenced jsxExpr hasRange startLine endLine ed =
     (\<exists>i t. i < length doc \<and>
        lineAt doc (getEndLine T doc i) = Some t \<and>
        editRange ed = newRange (getStartLine T doc i) 0 (getEndLine T doc i) (length t) \<and>
        (hasRange \<longrightarrow> startLine \<le> getStartLine T doc i \<and> int (getEndLine T doc i) \<le> endLine) \<and>
        shouldSkipParagraph T
          \<lparr>document = doc, lineStart = getStartLine T doc i, lineEnd = getEndLine T doc i,
           fencedRanges = fenced, jsxExprRanges = jsxExpr, frontMatterRange = fm,
           settings = cfg\<rparr> = Some False)"

text \<open>
  A line that one of the line-wise skip predicates matches: heading, import, footnote or
  reference definition, table separator or row, link-only list line.
\<close>

definition hasTrigger :: "string \<Rightarrow> bool" where
  "hasTrigger t =
     (ATX_HEADING_RE t \<or> MDX_IMPORT_RE t \<or> FOOTNOTE_DEF_RE t \<or> MD_TABLE_SEPARATOR_RE t \<or>
      MD_TABLE_ROW_RE t \<or> LIST_LINK_ONLY_RE t)"

text \<open>
  An instance of the absent functions for the closed examples: a unit is a maximal run of
  non-blank lines (a blank line is a unit of its own), and the text of a unit is that of
  \<open>reflowLines\<close>.
\<close>

definition exampleTestable :: Testable where
  "exampleTestable =
     \<lparr>getStartLine = (\<lambda>d i. if trim (d ! i) = [] then i
                             else i - length (takeWhile (\<lambda>t. trim t \<noteq> []) (rev (take i d)))),
      getEndLine = (\<lambda>d i. if trim (d ! i) = [] then i
                           else i + length (takeWhile (\<lambda>t. trim t \<noteq> []) (drop (Suc i) d))),
      getReflowedText = (\<lambda>d i se text cfg.
         case reflowLines d (fst se) (snd se) (preferredLineLength cfg) of
           Some ls \<Rightarrow> join [CHR 0x0A] ls
         | None \<Rightarrow> text)\<rparr>"

section \<open>Properties of the reflow engine\<close>







lemma those_map_Some:
  "(\<And>x. x \<in> set xs \<Longrightarrow> f x = Some (g x)) \<Longrightarrow> those (map f xs) = Some (map g xs)"
  by (induction xs) auto

lemma collectContents_Some:
  assumes "endLine < length doc"
  shows "collectContents doc startLine endLine =
         Some (map (\<lambda>i. content (getLineContext (doc ! i))) [startLine ..< Suc endLine])"
  unfolding collectContents_def
  by (rule those_map_Some) (use assms in \<open>auto simp: lineAt_def\<close>)

lemma reflowLines_Some:
  assumes "startLine \<le> endLine" "endLine < length doc"
  shows "reflowLines doc startLine endLine pll =
         Some (map (\<lambda>(index, line). linePrefix (getLineContext (doc ! startLine)) index @ line)
                (enumerate 0 (fillLines (effectiveLength (getLineContext (doc ! startLine)) pll)
                   (splitWords (map (\<lambda>i. content (getLineContext (doc ! i)))
                                    [startLine ..< Suc endLine])))))"
  using assms by (simp add: reflowLines_def lineAt_def collectContents_Some Let_def)



subsection \<open>Splitting into words\<close>

lemma split_ws_unfold:
  "split_ws s =
     (if dropWhile (\<lambda>c. \<not> isSpace c) s = [] then [takeWhile (\<lambda>c. \<not> isSpace c) s]
      else takeWhile (\<lambda>c. \<not> isSpace c) s #
           split_ws (dropWhile isSpace (dropWhile (\<lambda>c. \<not> isSpace c) s)))"
  by (subst split_ws.simps) (simp only: Let_def)

lemma split_ws_Nil: "split_ws [] = [[]]"
  by (subst split_ws_unfold) simp

lemma split_ws_space: "isSpace c \<Longrightarrow> split_ws (c # s) = [] # split_ws (dropWhile isSpace s)"
  by (subst split_ws_unfold) simp

lemma split_ws_nonspace:
  "\<not> isSpace c \<Longrightarrow> split_ws (c # s) =
     (if dropWhile (\<lambda>c. \<not> isSpace c) s = [] then [c # takeWhile (\<lambda>c. \<not> isSpace c) s]
      else (c # takeWhile (\<lambda>c. \<not> isSpace c) s) #
           split_ws (dropWhile isSpace (dropWhile (\<lambda>c. \<not> isSpace c) s)))"
  by (subst split_ws_unfold) simp

lemma wordsOf_Nil [simp]: "wordsOf [] = []"
  by (simp add: wordsOf_def split_ws_Nil)

lemma wordsOf_dropWhile: "wordsOf (dropWhile isSpace s) = wordsOf s"
proof (cases s)
  case Nil
  then show ?thesis by simp
next
  case (Cons c cs)
  then show ?thesis by (simp add: wordsOf_def split_ws_space)
qed

lemma wordsOf_space: "isSpace c \<Longrightarrow> wordsOf (c # s) = wordsOf s"
  using wordsOf_dropWhile [of "c # s"] wordsOf_dropWhile [of s] by simp

lemma wordsOf_nonspace:
  assumes "\<not> isSpace c"
  shows "wordsOf (c # s) =
         (c # takeWhile (\<lambda>c. \<not> isSpace c) s) # wordsOf (dropWhile (\<lambda>c. \<not> isSpace c) s)"
proof (cases "dropWhile (\<lambda>c. \<not> isSpace c) s = []")
  case True
  have "wordsOf (c # s) = [c # takeWhile (\<lambda>c. \<not> isSpace c) s]"
    unfolding wordsOf_def split_ws_nonspace [OF assms] if_P [OF True] by simp
  then show ?thesis unfolding True by simp
next
  case False
  have "wordsOf (c # s) = (c # takeWhile (\<lambda>c. \<not> isSpace c) s) #
      wordsOf (dropWhile isSpace (dropWhile (\<lambda>c. \<not> isSpace c) s))"
    unfolding wordsOf_def split_ws_nonspace [OF assms] if_not_P [OF False] by simp
  then show ?thesis by (simp only: wordsOf_dropWhile)
qed

lemma takeWhile_nonspace_append:
  "b = [] \<or> isSpace (hd b) \<Longrightarrow>
   takeWhile (\<lambda>c. \<not> isSpace c) (a @ b) = takeWhile (\<lambda>c. \<not> isSpace c) a"
  by (induction a) (auto, cases b, auto)

lemma dropWhile_nonspace_append:
  "b = [] \<or> isSpace (hd b) \<Longrightarrow>
   dropWhile (\<lambda>c. \<not> isSpace c) (a @ b) = dropWhile (\<lambda>c. \<not> isSpace c) a @ b"
  by (induction a) (auto, cases b, auto)

lemma wordsOf_append:
  assumes "b = [] \<or> isSpace (hd b)"
  shows "wordsOf (a @ b) = wordsOf a @ wordsOf b"
proof (induction a rule: length_induct)
  case (1 a)
  show ?case
  proof (cases a)
    case Nil
    then show ?thesis by simp
  next
    case (Cons c a')
    show ?thesis
    proof (cases "isSpace c")
      case True
      with Cons 1 show ?thesis by (simp add: wordsOf_space)
    next
      case False
      let ?n = "\<lambda>c. \<not> isSpace c"
      have tk: "takeWhile ?n (a' @ b) = takeWhile ?n a'"
        and dr: "dropWhile ?n (a' @ b) = dropWhile ?n a' @ b"
        using assms by (simp_all add: takeWhile_nonspace_append dropWhile_nonspace_append)
      have "length (dropWhile ?n a') < length a"
        using Cons by (simp add: length_dropWhile_le le_imp_less_Suc)
      with 1 have "wordsOf (dropWhile ?n a' @ b) = wordsOf (dropWhile ?n a') @ wordsOf b"
        by blast
      with False Cons tk dr show ?thesis by (simp add: wordsOf_nonspace)
    qed
  qed
qed

lemma wordsOf_all_space: "list_all isSpace s \<Longrightarrow> wordsOf s = []"
  by (induction s) (auto simp: wordsOf_space)

lemma wordsOf_trim: "wordsOf (trim s) = wordsOf s"
proof -
  let ?t = "dropWhile isSpace s"
  have split: "?t = rev (dropWhile isSpace (rev ?t)) @ rev (takeWhile isSpace (rev ?t))"
    by (metis rev_append rev_rev_ident takeWhile_dropWhile_id)
  let ?sp = "rev (takeWhile isSpace (rev ?t))"
  have sp: "list_all isSpace ?sp"
    by (simp add: list_all_iff) (metis set_takeWhileD)
  then have "?sp = [] \<or> isSpace (hd ?sp)" by (cases ?sp) auto
  then have "wordsOf (trim s @ ?sp) = wordsOf (trim s) @ wordsOf ?sp"
    by (rule wordsOf_append)
  with split sp show ?thesis
    by (simp add: trim_def wordsOf_all_space wordsOf_dropWhile flip: split)
qed

lemma wordsOf_join_space:
  "wordsOf (join '' '' ls) = concat (map wordsOf ls)"
proof (induction "'' ''" ls rule: join.induct)
  case 1
  then show ?case by simp
next
  case (2 x)
  then show ?case by simp
next
  case (3 x y ys)
  have "wordsOf (x @ '' '' @ join '' '' (y # ys)) = wordsOf x @ wordsOf ('' '' @ join '' '' (y # ys))"
    by (rule wordsOf_append) (simp add: isSpace_def)
  with 3 show ?case by (simp add: wordsOf_space isSpace_def)
qed


lemma wordsOf_word:
  assumes "isWord w"
  shows "wordsOf w = [w]"
proof (cases w)
  case Nil
  with assms show ?thesis by (simp add: isWord_def)
next
  case (Cons c cs)
  with assms have c: "\<not> isSpace c" and cs: "\<forall>x\<in>set cs. \<not> isSpace x"
    by (simp_all add: isWord_def list_all_iff)
  from cs have eq: "takeWhile (\<lambda>c. \<not> isSpace c) cs = cs" "dropWhile (\<lambda>c. \<not> isSpace c) cs = []"
    by simp_all
  show ?thesis unfolding Cons wordsOf_nonspace [OF c] eq by simp
qed

lemma wordsOf_isWord: "w \<in> set (wordsOf s) \<Longrightarrow> isWord w"
proof (induction s arbitrary: w rule: length_induct)
  case (1 s)
  show ?case
  proof (cases s)
    case Nil
    with 1 show ?thesis by simp
  next
    case (Cons c cs)
    show ?thesis
    proof (cases "isSpace c")
      case True
      with 1(2) Cons have "w \<in> set (wordsOf cs)" by (simp add: wordsOf_space)
      moreover have "length cs < length s" using Cons by simp
      ultimately show ?thesis using 1(1) by blast
    next
      case False
      let ?d = "dropWhile (\<lambda>c. \<not> isSpace c) cs"
      have len: "length ?d < length s"
        using Cons by (simp add: length_dropWhile_le le_imp_less_Suc)
      from 1(2) False Cons
      have "w = c # takeWhile (\<lambda>c. \<not> isSpace c) cs \<or> w \<in> set (wordsOf ?d)"
        by (simp add: wordsOf_nonspace)
      then show ?thesis
      proof
        assume "w = c # takeWhile (\<lambda>c. \<not> isSpace c) cs"
        with False show ?thesis
          by (auto simp: isWord_def list_all_iff dest: set_takeWhileD)
      next
        assume "w \<in> set (wordsOf ?d)"
        with len 1(1) show ?thesis by blast
      qed
    qed
  qed
qed

text \<open>On a trimmed, non-empty string the split has no empty piece.\<close>

lemma split_ws_trimmed:
  "t \<noteq> [] \<Longrightarrow> \<not> isSpace (hd t) \<Longrightarrow> \<not> isSpace (last t) \<Longrightarrow> split_ws t = wordsOf t"
proof (induction t rule: length_induct)
  case (1 s)
  let ?n = "\<lambda>c. \<not> isSpace c"
  let ?w = "takeWhile ?n s" and ?r = "dropWhile ?n s"
  from 1(2,3) have w: "?w \<noteq> []" by (cases s) auto
  show ?case
  proof (cases "?r = []")
    case True
    then have "split_ws s = [?w]" using split_ws_unfold [of s] by (simp only: if_True simp_thms)
    with w show ?thesis by (simp add: wordsOf_def)
  next
    case False
    let ?u = "dropWhile isSpace ?r"
    have "last (?w @ ?r) = last ?r" using False by (rule last_appendR)
    then have lr: "last ?r = last s" by simp
    have une: "?u \<noteq> []"
    proof
      assume "?u = []"
      then have "\<forall>c\<in>set ?r. isSpace c" by (simp only: dropWhile_eq_Nil_conv)
      moreover have "last ?r \<in> set ?r" using False by (rule last_in_set)
      ultimately have "isSpace (last ?r)" by blast
      then have "isSpace (last s)" by (simp only: lr)
      with 1(4) show False by blast
    qed
    have hd: "\<not> isSpace (hd ?u)" using une by (rule hd_dropWhile)
    have "last (takeWhile isSpace ?r @ ?u) = last ?u" using une by (rule last_appendR)
    then have "last ?u = last ?r" by simp
    with lr 1(4) have lst: "\<not> isSpace (last ?u)" by simp
    have "length ?u \<le> length ?r" by (rule length_dropWhile_le)
    moreover have "length ?r < length s"
    proof -
      have "length (?w @ ?r) = length ?w + length ?r" by (rule length_append)
      then have "length s = length ?w + length ?r" by simp
      with w show ?thesis by simp
    qed
    ultimately have "length ?u < length s" by simp
    with 1(1) une hd lst have ih: "split_ws ?u = wordsOf ?u" by blast
    have sp: "split_ws s = ?w # split_ws ?u"
      using split_ws_unfold [of s] by (simp only: False if_False)
    then have "wordsOf s = ?w # wordsOf ?u"
      using w by (simp add: wordsOf_def)
    then show ?thesis by (simp only: sp ih)
  qed
qed

lemma trim_ends:
  assumes "trim s \<noteq> []"
  shows "\<not> isSpace (hd (trim s))" "\<not> isSpace (last (trim s))"
proof -
  let ?t = "dropWhile isSpace s"
  from assms have ne: "dropWhile isSpace (rev ?t) \<noteq> []" by (simp add: trim_def)
  then have tne: "?t \<noteq> []" by (cases ?t) simp_all
  have "\<not> isSpace (hd (dropWhile isSpace (rev ?t)))" using ne by (rule hd_dropWhile)
  then show "\<not> isSpace (last (trim s))" using ne by (simp add: trim_def last_rev)
  have "hd (trim s) = hd ?t"
  proof -
    have "?t = trim s @ rev (takeWhile isSpace (rev ?t))"
      unfolding trim_def by (metis rev_append rev_rev_ident takeWhile_dropWhile_id)
    then show ?thesis using assms by (metis hd_append2)
  qed
  then show "\<not> isSpace (hd (trim s))" using tne by (metis hd_dropWhile)
qed

lemma split_ws_trim:
  "split_ws (trim s) = (if trim s = [] then [[]] else wordsOf s)"
proof (cases "trim s = []")
  case True
  then show ?thesis by (simp add: split_ws_Nil)
next
  case False
  then show ?thesis
    using split_ws_trimmed [OF False trim_ends [OF False]] by (simp add: wordsOf_trim)
qed

subsection \<open>The words of the output\<close>

lemma fillStep_words:
  assumes "isWord w" "fillStep eff (acc, cur) w = (acc', cur')"
  shows "concat (map wordsOf acc') @ wordsOf cur' = concat (map wordsOf acc) @ wordsOf cur @ [w]"
proof -
  have sp: "wordsOf (cur @ '' '' @ w) = wordsOf cur @ [w]"
  proof -
    have "wordsOf (cur @ '' '' @ w) = wordsOf cur @ wordsOf ('' '' @ w)"
      by (rule wordsOf_append) (simp add: isSpace_def)
    also have "wordsOf ('' '' @ w) = wordsOf w" by (simp add: wordsOf_space isSpace_def)
    finally show ?thesis using assms(1) by (simp add: wordsOf_word)
  qed
  show ?thesis
    using assms(2) sp wordsOf_word [OF assms(1)]
    by (auto simp: fillStep_def split: if_splits)
qed

lemma foldl_fillStep_words:
  assumes "list_all isWord ws" "foldl (fillStep eff) (acc, cur) ws = (acc', cur')"
  shows "concat (map wordsOf acc') @ wordsOf cur' = concat (map wordsOf acc) @ wordsOf cur @ ws"
  using assms
proof (induction ws arbitrary: acc cur)
  case Nil
  then show ?case by simp
next
  case (Cons w ws)
  obtain a c where st: "fillStep eff (acc, cur) w = (a, c)" by (cases "fillStep eff (acc, cur) w")
  from Cons.prems(1) have w: "isWord w" and ws: "list_all isWord ws" by simp_all
  have "foldl (fillStep eff) (a, c) ws = (acc', cur')" using Cons.prems(2) st by simp
  from Cons.IH [OF ws this] fillStep_words [OF w st] show ?case by simp
qed

lemma fillLines_words:
  assumes "list_all isWord ws"
  shows "concat (map wordsOf (fillLines eff ws)) = ws"
proof -
  obtain a c where st: "foldl (fillStep eff) ([], []) ws = (a, c)"
    by (cases "foldl (fillStep eff) ([], []) ws")
  from foldl_fillStep_words [OF assms st] show ?thesis
    by (cases "c = []") (simp_all add: fillLines_def st)
qed

lemma fillLines_empty_piece: "fillLines eff [[]] = []"
  by (simp add: fillLines_def fillStep_def)

lemma splitWords_cases:
  "splitWords lines = (if trim (join '' '' lines) = [] then [[]] else wordsOf (join '' '' lines))"
  by (simp add: splitWords_def split_ws_trim)

lemma wordsOf_trim_Nil: "trim s = [] \<Longrightarrow> wordsOf s = []"
  using wordsOf_trim [of s] by simp



subsection \<open>Reading the output back\<close>

lemma lineTerminator_isSpace: "isLineTerminator c \<Longrightarrow> isSpace c"
  by (auto simp: isLineTerminator_def isSpace_def)

lemma isWord_isLine: "isWord w \<Longrightarrow> isLine w"
  by (cases w rule: rev_cases)
     (auto simp: isWord_def isLine_def list_all_iff hd_append dest: lineTerminator_isSpace)

lemma isLine_append_word:
  assumes "isLine cur" "isWord w"
  shows "isLine (cur @ '' '' @ w)"
proof -
  from assms(2) have w: "isLine w" by (rule isWord_isLine)
  then have "w \<noteq> []" by (simp add: isLine_def)
  then have "last (cur @ '' '' @ w) = last w" by simp
  moreover have "hd (cur @ '' '' @ w) = hd cur" using assms(1) by (simp add: isLine_def)
  ultimately show ?thesis
    using assms(1) w by (simp add: isLine_def isLineTerminator_def)
qed

lemma fillStep_isLine:
  assumes "isWord w" "list_all isLine acc" "cur = [] \<or> isLine cur"
    and "fillStep eff (acc, cur) w = (acc', cur')"
  shows "list_all isLine acc' \<and> isLine cur'"
  using assms isWord_isLine [OF assms(1)] isLine_append_word [of cur w]
  by (auto simp: fillStep_def split: if_splits)

lemma foldl_fillStep_isLine:
  assumes "list_all isWord ws" "list_all isLine acc" "cur = [] \<or> isLine cur"
    and "foldl (fillStep eff) (acc, cur) ws = (acc', cur')"
  shows "list_all isLine acc' \<and> (cur' = [] \<or> isLine cur')"
  using assms
proof (induction ws arbitrary: acc cur)
  case Nil
  then show ?case by simp
next
  case (Cons w ws)
  obtain a c where st: "fillStep eff (acc, cur) w = (a, c)" by (cases "fillStep eff (acc, cur) w")
  from Cons.prems(1) have w: "isWord w" and ws: "list_all isWord ws" by simp_all
  from fillStep_isLine [OF w Cons.prems(2,3) st]
  have a: "list_all isLine a" and c: "c = [] \<or> isLine c" by simp_all
  have "foldl (fillStep eff) (a, c) ws = (acc', cur')" using Cons.prems(4) st by simp
  from Cons.IH [OF ws a c this] show ?case .
qed

lemma fillLines_isLine:
  assumes "list_all isWord ws"
  shows "list_all isLine (fillLines eff ws)"
proof -
  obtain a c where st: "foldl (fillStep eff) ([], []) ws = (a, c)"
    by (cases "foldl (fillStep eff) ([], []) ws")
  from foldl_fillStep_isLine [OF assms _ _ st] have "list_all isLine a \<and> (c = [] \<or> isLine c)"
    by simp
  then show ?thesis by (auto simp: fillLines_def st)
qed

text \<open>White space in front of a line that starts with something else.\<close>

lemma dropWhile_space_prefix:
  "list_all isSpace ind \<Longrightarrow> l \<noteq> [] \<Longrightarrow> \<not> isSpace (hd l) \<Longrightarrow> dropWhile isSpace (ind @ l) = l"
  by (induction ind) (auto simp: neq_Nil_conv)

lemma takeWhile_space_prefix:
  "list_all isSpace ind \<Longrightarrow> l \<noteq> [] \<Longrightarrow> \<not> isSpace (hd l) \<Longrightarrow> takeWhile isSpace (ind @ l) = ind"
  by (induction ind) (auto simp: neq_Nil_conv)

lemma trim_isLine:
  assumes "list_all isSpace ind" "isLine l"
  shows "trim (ind @ l) = l"
proof -
  from assms(2) have ne: "l \<noteq> []" and h: "\<not> isSpace (hd l)" and la: "\<not> isSpace (last l)"
    by (simp_all add: isLine_def)
  have d: "dropWhile isSpace (ind @ l) = l" by (rule dropWhile_space_prefix [OF assms(1) ne h])
  from ne la have "dropWhile isSpace (rev l) = rev l"
    by (cases l rule: rev_cases) simp_all
  then show ?thesis by (simp add: trim_def d)
qed

lemma getLineContext_paragraph_line:
  assumes "list_all isSpace ind" "isLine l" "readsAsParagraph l"
  shows "getLineContext (ind @ l) = \<lparr>type = ParagraphLine, indent = ind, prefix = [], content = l\<rparr>"
proof -
  from assms(2) have ne: "l \<noteq> []" and h: "\<not> isSpace (hd l)" by (simp_all add: isLine_def)
  have d: "dropWhile isSpace (ind @ l) = l" by (rule dropWhile_space_prefix [OF assms(1) ne h])
  have t: "takeWhile isSpace (ind @ l) = ind" by (rule takeWhile_space_prefix [OF assms(1) ne h])
  have d0: "dropWhile isSpace l = l" using ne h by (cases l) simp_all
  from assms(3) have "matchList (ind @ l) = None"
    by (auto simp: readsAsParagraph_def matchList_def d d0 split: option.splits if_splits)
  moreover from assms(3) have "matchBlockquote (ind @ l) = None"
    by (auto simp: readsAsParagraph_def matchBlockquote_def d d0 Let_def split: if_splits)
  ultimately show ?thesis
    by (simp add: getLineContext_def t trim_isLine [OF assms(1,2)])
qed

lemma matchBullet_again:
  assumes "matchBullet r = Some (tok, r')"
  shows "matchBullet (tok @ x) = Some (tok, x) \<and> tok \<noteq> [] \<and> \<not> isSpace (hd tok)"
proof (cases r)
  case Nil
  with assms show ?thesis by (simp add: matchBullet_def)
next
  case (Cons c cs)
  show ?thesis
  proof (cases "c \<in> set ''*-+''")
    case True
    with assms Cons have "tok = [c]" by (simp add: matchBullet_def)
    with True show ?thesis by (auto simp: matchBullet_def isSpace_def)
  next
    case False
    let ?ds = "takeWhile isDigit r"
    from assms Cons False have tok: "tok = ?ds @ ''.''" and ne: "?ds \<noteq> []"
      by (auto simp: matchBullet_def Let_def split: if_splits)
    have dig: "\<forall>d\<in>set ?ds. isDigit d" by (auto dest: set_takeWhileD)
    obtain d ds where ds: "?ds = d # ds" using ne by (cases ?ds) auto
    with dig have d: "isDigit d" by simp
    have nd: "\<not> isDigit CHR ''.''" by (simp add: isDigit_def)
    have tw: "takeWhile isDigit (?ds @ ''.'' @ x) = ?ds"
      using dig nd by (simp add: takeWhile_append2)
    have dw: "dropWhile isDigit (?ds @ ''.'' @ x) = ''.'' @ x"
      using dig nd by (simp add: dropWhile_append2)
    have notb: "d \<notin> set ''*-+''" using d by (auto simp: isDigit_def)
    have "matchBullet (?ds @ ''.'' @ x) = Some (?ds @ ''.'', x)"
      unfolding matchBullet_def tw dw using ds notb ne
      by (simp add: Let_def)
    moreover have "\<not> isSpace d" using d by (auto simp: isDigit_def isSpace_def)
    ultimately show ?thesis using tok ds by simp
  qed
qed

lemma getLineContext_list_line:
  assumes "matchBullet r = Some (tok, r')" "list_all isSpace ind" "isLine l"
  shows "getLineContext (ind @ tok @ '' '' @ l) =
         \<lparr>type = ListLine, indent = ind, prefix = tok, content = l\<rparr>"
proof -
  from matchBullet_again [OF assms(1), of "'' '' @ l"]
  have mb: "matchBullet (tok @ '' '' @ l) = Some (tok, '' '' @ l)"
    and ne: "tok \<noteq> []" and h: "\<not> isSpace (hd tok)" by simp_all
  from ne h have ne': "tok @ '' '' @ l \<noteq> []" and h': "\<not> isSpace (hd (tok @ '' '' @ l))"
    by simp_all
  have d: "dropWhile isSpace (ind @ tok @ '' '' @ l) = tok @ '' '' @ l"
    by (rule dropWhile_space_prefix [OF assms(2) ne' h'])
  have t: "takeWhile isSpace (ind @ tok @ '' '' @ l) = ind"
    by (rule takeWhile_space_prefix [OF assms(2) ne' h'])
  from assms(3) have l: "l \<noteq> []" "\<not> isSpace (hd l)" "list_all (\<lambda>c. \<not> isLineTerminator c) l"
    by (simp_all add: isLine_def)
  then have dl: "dropWhile isSpace ('' '' @ l) = l"
    by (cases l) (simp_all add: isSpace_def)
  have "matchList (ind @ tok @ '' '' @ l) = Some (ind, tok, l)"
    unfolding matchList_def d t mb using l dl by (simp add: isSpace_def)
  then show ?thesis by (simp add: getLineContext_def)
qed

lemma getLineContext_blockquote_line:
  assumes "q \<noteq> []" "list_all (\<lambda>c. c = CHR ''>'') q" "list_all isSpace ind" "isLine l"
  shows "getLineContext (ind @ q @ '' '' @ l) =
         \<lparr>type = BlockquoteLine, indent = ind, prefix = q, content = l\<rparr>"
proof -
  obtain q' where q: "q = CHR ''>'' # q'" using assms(1,2) by (cases q) auto
  have ne': "q @ '' '' @ l \<noteq> []" and h': "\<not> isSpace (hd (q @ '' '' @ l))"
    using q by (simp_all add: isSpace_def)
  have d: "dropWhile isSpace (ind @ q @ '' '' @ l) = q @ '' '' @ l"
    by (rule dropWhile_space_prefix [OF assms(3) ne' h'])
  have t: "takeWhile isSpace (ind @ q @ '' '' @ l) = ind"
    by (rule takeWhile_space_prefix [OF assms(3) ne' h'])
  from assms(4) have l: "l \<noteq> []" "\<not> isSpace (hd l)" "list_all (\<lambda>c. \<not> isLineTerminator c) l"
    by (simp_all add: isLine_def)
  then have dl: "dropWhile isSpace ('' '' @ l) = l"
    by (cases l) (simp_all add: isSpace_def)
  have mb: "matchBullet (q @ '' '' @ l) = None"
    by (simp add: matchBullet_def q isDigit_def)
  have ml: "matchList (ind @ q @ '' '' @ l) = None"
    unfolding matchList_def d mb by simp
  have qs: "\<forall>c\<in>set q. c = CHR ''>''" using assms(2) by (simp add: list_all_iff)
  have tq: "takeWhile (\<lambda>c. c = CHR ''>'') (q @ '' '' @ l) = q"
    using qs by (simp add: takeWhile_append2)
  have dq: "dropWhile (\<lambda>c. c = CHR ''>'') (q @ '' '' @ l) = '' '' @ l"
    using qs by (simp add: dropWhile_append2)
  have "matchBlockquote (ind @ q @ '' '' @ l) = Some (ind, q, l)"
    unfolding matchBlockquote_def Let_def d t tq dq dl using assms(1) l by simp
  with ml show ?thesis by (simp add: getLineContext_def)
qed

lemma getLineContext_shape:
  "list_all isSpace (indent (getLineContext t))"
  "type (getLineContext t) = ListLine \<Longrightarrow> \<exists>r r'. matchBullet r = Some (prefix (getLineContext t), r')"
  "type (getLineContext t) = BlockquoteLine \<Longrightarrow>
     prefix (getLineContext t) \<noteq> [] \<and> list_all (\<lambda>c. c = CHR ''>'') (prefix (getLineContext t))"
  "type (getLineContext t) = ParagraphLine \<Longrightarrow> prefix (getLineContext t) = []"
proof -
  have sp: "list_all isSpace (takeWhile isSpace t)"
    by (auto simp: list_all_iff dest: set_takeWhileD)
  show "list_all isSpace (indent (getLineContext t))"
    using sp
    by (auto simp: getLineContext_def matchList_def matchBlockquote_def Let_def
        split: option.splits if_splits)
  show "type (getLineContext t) = ListLine \<Longrightarrow>
        \<exists>r r'. matchBullet r = Some (prefix (getLineContext t), r')"
    by (auto simp: getLineContext_def matchList_def matchBlockquote_def Let_def
        split: option.splits if_splits)
  have gt: "list_all (\<lambda>c. c = CHR ''>'') (takeWhile (\<lambda>c. c = CHR ''>'') x)" for x
    by (auto simp: list_all_iff dest: set_takeWhileD)
  show "type (getLineContext t) = BlockquoteLine \<Longrightarrow>
     prefix (getLineContext t) \<noteq> [] \<and> list_all (\<lambda>c. c = CHR ''>'') (prefix (getLineContext t))"
    using gt
    by (auto simp: getLineContext_def matchList_def matchBlockquote_def Let_def
        split: option.splits if_splits)
  show "type (getLineContext t) = ParagraphLine \<Longrightarrow> prefix (getLineContext t) = []"
    by (auto simp: getLineContext_def matchList_def matchBlockquote_def Let_def
        split: option.splits if_splits)
qed

lemma content_update_eq:
  "c\<lparr>content := l\<rparr> = \<lparr>type = type c, indent = indent c, prefix = prefix c, content = l\<rparr>"
  by (cases c) simp

lemma reclassify_list_first:
  assumes "isLine l" "type (getLineContext t) = ListLine"
  shows "getLineContext (linePrefix (getLineContext t) 0 @ l) = (getLineContext t)\<lparr>content := l\<rparr>"
proof -
  define c where "c = getLineContext t"
  have ind: "list_all isSpace (indent c)" unfolding c_def by (rule getLineContext_shape(1))
  have ty: "type c = ListLine" using assms(2) by (simp only: c_def)
  obtain r r' where mb: "matchBullet r = Some (prefix c, r')"
    using getLineContext_shape(2) [OF assms(2)] unfolding c_def by blast
  have lp: "linePrefix c 0 = indent c @ prefix c @ '' ''"
    by (simp add: linePrefix_def ty)
  have "getLineContext (linePrefix c 0 @ l) =
        \<lparr>type = ListLine, indent = indent c, prefix = prefix c, content = l\<rparr>"
    unfolding lp using getLineContext_list_line [OF mb ind assms(1)] by simp
  also have "\<dots> = c\<lparr>content := l\<rparr>"
    unfolding content_update_eq ty ..
  finally show ?thesis by (simp only: c_def)
qed

lemma reclassify_blockquote:
  assumes "isLine l" "type (getLineContext t) = BlockquoteLine"
  shows "getLineContext (linePrefix (getLineContext t) k @ l) = (getLineContext t)\<lparr>content := l\<rparr>"
proof -
  define c where "c = getLineContext t"
  have ind: "list_all isSpace (indent c)" unfolding c_def by (rule getLineContext_shape(1))
  have ty: "type c = BlockquoteLine" using assms(2) by (simp only: c_def)
  have q: "prefix c \<noteq> []" "list_all (\<lambda>c. c = CHR ''>'') (prefix c)"
    using getLineContext_shape(3) [OF assms(2)] unfolding c_def by blast+
  have lp: "linePrefix c k = indent c @ prefix c @ '' ''"
    by (simp add: linePrefix_def ty)
  have "getLineContext (linePrefix c k @ l) =
        \<lparr>type = BlockquoteLine, indent = indent c, prefix = prefix c, content = l\<rparr>"
    unfolding lp using getLineContext_blockquote_line [OF q ind assms(1)] by simp
  also have "\<dots> = c\<lparr>content := l\<rparr>"
    unfolding content_update_eq ty ..
  finally show ?thesis by (simp only: c_def)
qed

lemma reclassify_paragraph:
  assumes "isLine l" "type (getLineContext t) = ParagraphLine" "readsAsParagraph l"
  shows "getLineContext (linePrefix (getLineContext t) k @ l) = (getLineContext t)\<lparr>content := l\<rparr>"
proof -
  define c where "c = getLineContext t"
  have ind: "list_all isSpace (indent c)" unfolding c_def by (rule getLineContext_shape(1))
  have ty: "type c = ParagraphLine" using assms(2) by (simp only: c_def)
  have p: "prefix c = []"
    using getLineContext_shape(4) [OF assms(2)] unfolding c_def .
  have lp: "linePrefix c k = indent c" by (simp add: linePrefix_def ty)
  have "getLineContext (linePrefix c k @ l) =
        \<lparr>type = ParagraphLine, indent = indent c, prefix = [], content = l\<rparr>"
    unfolding lp by (rule getLineContext_paragraph_line [OF ind assms(1,3)])
  also have "\<dots> = c\<lparr>content := l\<rparr>"
    unfolding content_update_eq ty p ..
  finally show ?thesis by (simp only: c_def)
qed

lemma reclassify_list_rest:
  assumes "isLine l" "type (getLineContext t) = ListLine" "k \<noteq> 0" "readsAsParagraph l"
  shows "content (getLineContext (linePrefix (getLineContext t) k @ l)) = l"
proof -
  define c where "c = getLineContext t"
  have ind: "list_all isSpace (indent c)" unfolding c_def by (rule getLineContext_shape(1))
  have ty: "type c = ListLine" using assms(2) by (simp only: c_def)
  have lp: "linePrefix c k = indent c @ replicate (length (prefix c) + 1) CHR '' ''"
    using assms(3) by (simp add: linePrefix_def ty)
  have "isSpace CHR '' ''" by (simp add: isSpace_def)
  with ind have sp: "list_all isSpace (indent c @ replicate (length (prefix c) + 1) CHR '' '')"
    by (auto simp: list_all_iff)
  have "content (getLineContext (linePrefix c k @ l)) = l"
    unfolding lp getLineContext_paragraph_line [OF sp assms(1,4)] by simp
  then show ?thesis by (simp only: c_def)
qed

lemma content_of_update: "content (c\<lparr>content := l\<rparr>) = l"
  by simp

lemma reclassify:
  assumes "isLine l" "keepsContent (getLineContext t) k l"
  shows "content (getLineContext (linePrefix (getLineContext t) k @ l)) = l"
    and "k = 0 \<Longrightarrow> getLineContext (linePrefix (getLineContext t) k @ l) =
                    (getLineContext t)\<lparr>content := l\<rparr>"
proof -
  show "content (getLineContext (linePrefix (getLineContext t) k @ l)) = l"
  proof (cases "type (getLineContext t)")
    case ListLine
    show ?thesis
    proof (cases "k = 0")
      case True
      show ?thesis
        unfolding True reclassify_list_first [OF assms(1) ListLine] by (rule content_of_update)
    next
      case False
      with assms(2) ListLine have "readsAsParagraph l" by (simp add: keepsContent_def)
      from reclassify_list_rest [OF assms(1) ListLine False this] show ?thesis .
    qed
  next
    case BlockquoteLine
    show ?thesis
      unfolding reclassify_blockquote [OF assms(1) BlockquoteLine] by (rule content_of_update)
  next
    case ParagraphLine
    with assms(2) have "readsAsParagraph l" by (simp add: keepsContent_def)
    from reclassify_paragraph [OF assms(1) ParagraphLine this, of k] show ?thesis
      by (simp only: content_of_update)
  qed
  show "getLineContext (linePrefix (getLineContext t) k @ l) = (getLineContext t)\<lparr>content := l\<rparr>"
    if k: "k = 0"
  proof (cases "type (getLineContext t)")
    case ListLine
    show ?thesis unfolding k by (rule reclassify_list_first [OF assms(1) ListLine])
  next
    case BlockquoteLine
    show ?thesis by (rule reclassify_blockquote [OF assms(1) BlockquoteLine])
  next
    case ParagraphLine
    with assms(2) have "readsAsParagraph l" by (simp add: keepsContent_def)
    from reclassify_paragraph [OF assms(1) ParagraphLine this] show ?thesis .
  qed
qed

lemma fillLines_Nil: "fillLines eff [] = []"
  by (simp add: fillLines_def)

lemma reflowLines_empty_text: "reflowLines [[]] 0 0 pll = Some []"
proof -
  have "trim [] = []" by (simp add: trim_def)
  then show ?thesis
    by (simp add: reflowLines_def lineAt_def collectContents_def getLineContext_def matchList_def
        matchBullet_def matchBlockquote_def splitWords_def split_ws_Nil fillLines_empty_piece)
qed

lemma effectiveLength_content [simp]:
  "effectiveLength (c\<lparr>content := l\<rparr>) pll = effectiveLength c pll"
  by (simp add: effectiveLength_def prefixLength_def)

lemma linePrefix_content [simp]: "linePrefix (c\<lparr>content := l\<rparr>) k = linePrefix c k"
  by (simp add: linePrefix_def)

lemma nth_attach:
  "k < length core \<Longrightarrow>
   map (\<lambda>(index, line). f index @ line) (enumerate 0 core) ! k = f k @ core ! k"
  by (simp add: nth_enumerate_eq)

text \<open>
  C5 (idempotence, as the code has it).  When every output line, without the prefix put in
  front of it, is read back by the classifier as its content (\<open>keepsContent\<close>), reflowing
  the produced lines again with the same preferred line length returns them unchanged.
\<close>

theorem reflowLines_idempotent:
  assumes "startLine \<le> endLine" "endLine < length doc"
    and "reflowLines doc startLine endLine width = Some out"
    and "\<forall>index<length out.
           keepsContent (getLineContext (doc ! startLine)) index
             (drop (length (linePrefix (getLineContext (doc ! startLine)) index))
                   (out ! index))"
  shows "reflowLines (producedLines out) 0 (length (producedLines out) - 1) width
         = Some out"
proof -
  let ?ctx = "getLineContext (doc ! startLine)"
  let ?lines = "map (\<lambda>i. content (getLineContext (doc ! i))) [startLine ..< Suc endLine]"
  let ?eff = "effectiveLength ?ctx width"
  let ?ws = "splitWords ?lines"
  let ?core = "fillLines ?eff ?ws"
  have out: "out = map (\<lambda>(index, line). linePrefix ?ctx index @ line) (enumerate 0 ?core)"
    using reflowLines_Some [OF assms(1,2), of width] assms(3) by simp
  then have len: "length out = length ?core" by simp
  have nth: "out ! k = linePrefix ?ctx k @ ?core ! k" if "k < length ?core" for k
    unfolding out using that by (rule nth_attach)
  show ?thesis
  proof (cases "?core = []")
    case True
    with out have "out = []" by simp
    then show ?thesis by (simp add: producedLines_def reflowLines_empty_text)
  next
    case False
    have tr: "trim (join '' '' ?lines) \<noteq> []"
    proof
      assume "trim (join '' '' ?lines) = []"
      then have "?ws = [[]]" by (simp add: splitWords_cases)
      then have "?core = []" by (simp add: fillLines_empty_piece)
      with False show False by simp
    qed
    then have ws: "?ws = wordsOf (join '' '' ?lines)" by (simp add: splitWords_cases)
    have words: "list_all isWord ?ws"
      unfolding ws by (simp add: list_all_iff wordsOf_isWord)
    have wsne: "?ws \<noteq> []"
    proof
      assume "?ws = []"
      then have "?core = []" by (simp add: fillLines_Nil)
      with False show False by simp
    qed
    have lines: "list_all isLine ?core" by (rule fillLines_isLine [OF words])
    have isl: "isLine (?core ! k)" if "k < length ?core" for k
      using lines that by (simp add: list_all_length)
    have keep: "keepsContent ?ctx k (?core ! k)" if "k < length ?core" for k
    proof -
      from that assms(4) len
      have "keepsContent ?ctx k (drop (length (linePrefix ?ctx k)) (out ! k))" by simp
      then show ?thesis by (simp add: nth [OF that])
    qed
    have ne: "out \<noteq> []" using False len by auto
    then have pl: "producedLines out = out" by (simp add: producedLines_def)
    have n: "0 < length ?core" using False by simp
    have first: "getLineContext (out ! 0) = ?ctx\<lparr>content := ?core ! 0\<rparr>"
      unfolding nth [OF n] by (rule reclassify(2) [OF isl [OF n] keep [OF n] refl])
    have idx: "Suc (length out - 1) = length out" using n len by simp
    have contents: "map (\<lambda>i. content (getLineContext (out ! i))) [0 ..< Suc (length out - 1)]
                    = ?core"
      unfolding idx
    proof (rule nth_equalityI)
      show "length (map (\<lambda>i. content (getLineContext (out ! i))) [0 ..< length out])
            = length ?core" using len by simp
    next
      fix k
      assume "k < length (map (\<lambda>i. content (getLineContext (out ! i))) [0 ..< length out])"
      then have k: "k < length ?core" using len by simp
      then have "map (\<lambda>i. content (getLineContext (out ! i))) [0 ..< length out] ! k
                 = content (getLineContext (out ! k))"
        using len by simp
      also have "\<dots> = ?core ! k"
        unfolding nth [OF k] by (rule reclassify(1) [OF isl [OF k] keep [OF k]])
      finally show "map (\<lambda>i. content (getLineContext (out ! i))) [0 ..< length out] ! k
                    = ?core ! k" .
    qed
    have again: "splitWords ?core = ?ws"
    proof -
      have w: "wordsOf (join '' '' ?core) = ?ws"
        by (simp only: wordsOf_join_space fillLines_words [OF words])
      have "trim (join '' '' ?core) \<noteq> []"
      proof
        assume "trim (join '' '' ?core) = []"
        then have "wordsOf (join '' '' ?core) = []" by (rule wordsOf_trim_Nil)
        with w wsne show False by simp
      qed
      then show ?thesis using w by (simp add: splitWords_cases)
    qed
    have "reflowLines out 0 (length out - 1) width =
          Some (map (\<lambda>(index, line). linePrefix (getLineContext (out ! 0)) index @ line)
                 (enumerate 0 (fillLines (effectiveLength (getLineContext (out ! 0))
                     width)
                   (splitWords (map (\<lambda>i. content (getLineContext (out ! i)))
                                    [0 ..< Suc (length out - 1)])))))"
      by (rule reflowLines_Some) (use ne in simp_all)
    also have "\<dots> = Some out"
      unfolding contents again first by (simp add: out)
    finally show ?thesis by (simp add: pl)
  qed
qed

theorem reflowLines_idempotent_witness:
  "reflowLines (producedLines [''- alpha beta'', ''  gamma'']) 0
     (length (producedLines [''- alpha beta'', ''  gamma'']) - 1) 12
   = Some [''- alpha beta'', ''  gamma'']"
proof (rule reflowLines_idempotent [of 0 0 "[''- alpha beta gamma'']"])
  show "(0::nat) \<le> 0" by simp
  show "0 < length [''- alpha beta gamma'']" by simp
  show "reflowLines [''- alpha beta gamma''] 0 0 12 = Some [''- alpha beta'', ''  gamma'']"
    by code_simp
  have "keepsContent (getLineContext ([''- alpha beta gamma''] ! 0)) 0
          (drop (length (linePrefix (getLineContext ([''- alpha beta gamma''] ! 0)) 0))
                ([''- alpha beta'', ''  gamma''] ! 0))"
    by code_simp
  moreover have "keepsContent (getLineContext ([''- alpha beta gamma''] ! 0)) 1
          (drop (length (linePrefix (getLineContext ([''- alpha beta gamma''] ! 0)) 1))
                ([''- alpha beta'', ''  gamma''] ! 1))"
    by code_simp
  ultimately show "\<forall>index<length [''- alpha beta'', ''  gamma''].
       keepsContent (getLineContext ([''- alpha beta gamma''] ! 0)) index
         (drop (length (linePrefix (getLineContext ([''- alpha beta gamma''] ! 0)) index))
               ([''- alpha beta'', ''  gamma''] ! index))"
    by (simp add: numeral_2_eq_2 All_less_Suc)
qed

text \<open>
  Without that condition a second pass can change the text: a continuation line of a list
  item that starts with a dash is read as a list item of its own and loses the dash.
\<close>

theorem idempotence_counterexample:
  "reflowLines [''- a bb - c''] 0 0 6 = Some [''- a bb'', ''  - c''] \<and>
   reflowLines (producedLines [''- a bb'', ''  - c'']) 0
     (length (producedLines [''- a bb'', ''  - c'']) - 1) 6 = Some [''- a bb'', ''  c''] \<and>
   [''- a bb'', ''  c''] \<noteq> [''- a bb'', ''  - c'']"
  by code_simp


subsection \<open>The marker of a unit and the words of a line\<close>
















subsection \<open>Width bound\<close>





subsection \<open>Content preservation\<close>





section \<open>Properties of the detectors\<close>

lemma newRange_lines:
  "s \<le> e \<Longrightarrow> lineOf (startOf (newRange s 0 e c)) = s \<and> lineOf (endOf (newRange s 0 e c)) = e"
  by (auto simp: newRange_def isBeforeOrEqual_def)


lemma closed_range_outside:
  assumes "s < i" "\<forall>l. s \<le> l \<and> l < i \<longrightarrow> findRangeContainingLine fenced l = None"
  shows "outsideFences fenced (newRange s 0 (i - 1) c)"
proof -
  from assms(1) have "s \<le> i - 1" by simp
  from newRange_lines [OF this, of c] assms show ?thesis
    by (auto simp: outsideFences_def)
qed

lemma jsxStep_inv:
  assumes "jsxInv fenced i st"
  shows "jsxInv fenced (Suc i) (jsxStep fenced doc st i)"
proof (cases "findRangeContainingLine fenced i \<noteq> None")
  case True
  show ?thesis
  proof (cases "currentStart st")
    case None
    with True assms show ?thesis by (simp add: jsxStep_def jsxInv_def)
  next
    case (Some s)
    with assms have "s < i" "\<forall>l. s \<le> l \<and> l < i \<longrightarrow> findRangeContainingLine fenced l = None"
      by (simp_all add: jsxInv_def)
    from closed_range_outside [OF this] True Some assms show ?thesis
      by (simp add: jsxStep_def jsxInv_def)
  qed
next
  case False
  then have nf: "findRangeContainingLine fenced i = None" by simp
  obtain d li where sc: "scanLine (doc ! i) (False, 0, depth st, depth st > 0) = (d, li)"
    by (cases "scanLine (doc ! i) (False, 0, depth st, depth st > 0)")
  show ?thesis
  proof (cases "currentStart st")
    case None
    have "findRangeContainingLine fenced l = None" if "i \<le> l" "l < Suc i" for l
    proof -
      from that have "l = i" by simp
      with nf show ?thesis by simp
    qed
    with None nf sc assms show ?thesis
      by (auto simp: jsxStep_def jsxInv_def)
  next
    case (Some s)
    with assms have s: "s < i"
      and fr: "\<forall>l. s \<le> l \<and> l < i \<longrightarrow> findRangeContainingLine fenced l = None"
      by (simp_all add: jsxInv_def)
    show ?thesis
    proof (cases li)
      case True
      have "findRangeContainingLine fenced l = None" if "s \<le> l" "l < Suc i" for l
        using that fr nf by (cases "l = i") auto
      with True nf sc Some s assms show ?thesis
        by (simp add: jsxStep_def jsxInv_def)
    next
      case False
      from closed_range_outside [OF s fr] False nf sc Some assms show ?thesis
        by (simp add: jsxStep_def jsxInv_def)
    qed
  qed
qed

lemma jsx_fold_inv:
  "jsxInv fenced n
     (foldl (jsxStep fenced doc) \<lparr>jsxRanges = [], depth = 0, currentStart = None\<rparr> [0 ..< n])"
proof (induction n)
  case 0
  show ?case by (simp add: jsxInv_def)
next
  case (Suc n)
  from jsxStep_inv [OF Suc] show ?case by simp
qed

lemma jsx_ranges_outside_fences:
  "\<forall>r\<in>set (getJsxExpressionRanges doc fenced). outsideFences fenced r"
proof -
  let ?n = "length doc"
  let ?st = "foldl (jsxStep fenced doc)
               \<lparr>jsxRanges = [], depth = 0, currentStart = None\<rparr> [0 ..< ?n]"
  have inv: "jsxInv fenced ?n ?st" by (rule jsx_fold_inv)
  show ?thesis
  proof (cases "currentStart ?st")
    case None
    with inv show ?thesis by (simp add: getJsxExpressionRanges_def jsxInv_def Let_def)
  next
    case (Some s)
    with inv have "s < ?n"
      "\<forall>l. s \<le> l \<and> l < ?n \<longrightarrow> findRangeContainingLine fenced l = None"
      by (simp_all add: jsxInv_def)
    from closed_range_outside [OF this] Some inv show ?thesis
      by (simp add: getJsxExpressionRanges_def jsxInv_def Let_def)
  qed
qed

lemma scanLine_keeps_inside: "li \<Longrightarrow> snd (scanLine t (a, b, d, li))"
  by (induction t "(a, b, d, li)" arbitrary: a b d li rule: scanLine.induct)
     (simp_all add: Let_def)

lemma find_covers: "findRangeContainingLine rs k \<noteq> None \<longleftrightarrow> coversLine rs k"
  by (auto simp: findRangeContainingLine_def coversLine_def find_None_iff)

lemma coversLine_Nil [simp]: "\<not> coversLine [] k"
  by (simp add: coversLine_def)

lemma coversLine_snoc:
  assumes "s \<le> e"
  shows "coversLine (rs @ [newRange s 0 e c]) k \<longleftrightarrow> coversLine rs k \<or> (s \<le> k \<and> k \<le> e)"
  using newRange_lines [OF assms, of c] by (auto simp: coversLine_def)

lemma jsxStep_scan:
  assumes "jsxScanInv fenced doc n st"
  shows "jsxScanInv fenced doc (Suc n) (jsxStep fenced doc st n)"
proof -
  let ?in = "insideLine fenced doc"
  from assms have d: "depth st = depthBefore fenced doc n"
    and cl: "\<And>k. coversLine (jsxRanges st) k \<Longrightarrow> k < n \<and> ?in k"
    and cs: "\<And>s. currentStart st = Some s \<Longrightarrow> s < n \<and> (\<forall>k. s \<le> k \<and> k < n \<longrightarrow> ?in k)"
    and cv: "\<And>k. k < n \<Longrightarrow> ?in k \<Longrightarrow>
               coversLine (jsxRanges st) k \<or> (\<exists>s. currentStart st = Some s \<and> s \<le> k)"
    by (auto simp: jsxScanInv_def)
  obtain d' li where sc: "scanLine (doc ! n) (False, 0, depth st, depth st > 0) = (d', li)"
    by (cases "scanLine (doc ! n) (False, 0, depth st, depth st > 0)")
  have closed: "coversLine (jsxRanges st @ [newRange s 0 (n - 1) c]) k \<longleftrightarrow>
                coversLine (jsxRanges st) k \<or> (s \<le> k \<and> k < n)" if "s < n" for s c k
  proof -
    from that have "s \<le> n - 1" by simp
    from coversLine_snoc [OF this] that show ?thesis by auto
  qed
  show ?thesis
  proof (cases "findRangeContainingLine fenced n \<noteq> None")
    case True
    then have nin: "\<not> ?in n" by (simp add: insideLine_def)
    have dS: "depthBefore fenced doc (Suc n) = depthBefore fenced doc n" using True by simp
    show ?thesis
    proof (cases "currentStart st")
      case None
      then have st: "jsxStep fenced doc st n = st" using True by (simp add: jsxStep_def)
      have "coversLine (jsxRanges st) k" if "k < Suc n" "?in k" for k
      proof -
        from that nin have "k < n" by (cases "k = n") auto
        from cv [OF this that(2)] None show ?thesis by simp
      qed
      moreover have "k < Suc n \<and> ?in k" if "coversLine (jsxRanges st) k" for k
        using cl [OF that] by simp
      ultimately show ?thesis unfolding st jsxScanInv_def using d dS None by auto
    next
      case (Some s)
      from cs [OF Some] have sn: "s < n" and run: "\<And>k. s \<le> k \<Longrightarrow> k < n \<Longrightarrow> ?in k" by auto
      let ?c = "length (doc ! (n - 1))"
      have st: "jsxStep fenced doc st n =
                  st\<lparr>jsxRanges := jsxRanges st @ [newRange s 0 (n - 1) ?c], currentStart := None\<rparr>"
        using True Some by (simp add: jsxStep_def)
      have a: "k < Suc n \<and> ?in k" if "coversLine (jsxRanges st @ [newRange s 0 (n - 1) ?c]) k" for k
        using that cl [of k] run [of k] unfolding closed [OF sn] by auto
      have b: "coversLine (jsxRanges st @ [newRange s 0 (n - 1) ?c]) k" if "k < Suc n" "?in k" for k
      proof -
        from that nin have kn: "k < n" by (cases "k = n") auto
        from cv [OF kn that(2)] Some kn show ?thesis unfolding closed [OF sn] by auto
      qed
      show ?thesis unfolding st jsxScanInv_def using d dS a b by simp
    qed
  next
    case False
    then have nf: "findRangeContainingLine fenced n = None" by simp
    have dS: "depthBefore fenced doc (Suc n) = d'" using nf sc d by simp
    have inn: "?in n \<longleftrightarrow> li" using nf sc d by (simp add: insideLine_def)
    show ?thesis
    proof (cases li)
      case True
      show ?thesis
      proof (cases "currentStart st")
        case None
        have st: "jsxStep fenced doc st n = st\<lparr>depth := d', currentStart := Some n\<rparr>"
          using nf sc True None by (simp add: jsxStep_def)
        have a: "k < Suc n \<and> ?in k" if "coversLine (jsxRanges st) k" for k
          using cl [OF that] by simp
        have b: "coversLine (jsxRanges st) k \<or> n \<le> k" if "k < Suc n" "?in k" for k
        proof (cases "k = n")
          case True then show ?thesis by simp
        next
          case False
          with that have "k < n" by simp
          from cv [OF this that(2)] None show ?thesis by simp
        qed
        have c: "?in k" if "n \<le> k" "k < Suc n" for k
        proof -
          from that have "k = n" by simp
          with inn True show ?thesis by simp
        qed
        show ?thesis unfolding st jsxScanInv_def using dS a b c by simp
      next
        case (Some s)
        from cs [OF Some] have sn: "s < n" and run: "\<And>k. s \<le> k \<Longrightarrow> k < n \<Longrightarrow> ?in k" by auto
        have st: "jsxStep fenced doc st n = st\<lparr>depth := d'\<rparr>"
          using nf sc True Some by (simp add: jsxStep_def)
        have a: "k < Suc n \<and> ?in k" if "coversLine (jsxRanges st) k" for k
          using cl [OF that] by simp
        have b: "coversLine (jsxRanges st) k \<or> s \<le> k" if "k < Suc n" "?in k" for k
        proof (cases "k = n")
          case True with sn show ?thesis by simp
        next
          case False
          with that have "k < n" by simp
          from cv [OF this that(2)] Some show ?thesis by simp
        qed
        have c: "?in k" if "s \<le> k" "k < Suc n" for k
        proof (cases "k = n")
          case True with inn \<open>li\<close> show ?thesis by simp
        next
          case False
          with that have "k < n" by simp
          from run [OF that(1) this] show ?thesis .
        qed
        show ?thesis unfolding st jsxScanInv_def using dS a b c Some sn by simp
      qed
    next
      case False
      then have nin: "\<not> ?in n" using inn by simp
      show ?thesis
      proof (cases "currentStart st")
        case None
        have st: "jsxStep fenced doc st n = st\<lparr>depth := d'\<rparr>"
          using nf sc False None by (simp add: jsxStep_def)
        have a: "k < Suc n \<and> ?in k" if "coversLine (jsxRanges st) k" for k
          using cl [OF that] by simp
        have b: "coversLine (jsxRanges st) k" if "k < Suc n" "?in k" for k
        proof -
          from that nin have "k < n" by (cases "k = n") auto
          from cv [OF this that(2)] None show ?thesis by simp
        qed
        show ?thesis unfolding st jsxScanInv_def using dS a b None by simp
      next
        case (Some s)
        from cs [OF Some] have sn: "s < n" and run: "\<And>k. s \<le> k \<Longrightarrow> k < n \<Longrightarrow> ?in k" by auto
        let ?c = "length (doc ! (n - 1))"
        have st: "jsxStep fenced doc st n =
                    st\<lparr>jsxRanges := jsxRanges st @ [newRange s 0 (n - 1) ?c],
                       depth := d', currentStart := None\<rparr>"
          using nf sc False Some by (simp add: jsxStep_def)
        have a: "k < Suc n \<and> ?in k" if "coversLine (jsxRanges st @ [newRange s 0 (n - 1) ?c]) k" for k
          using that cl [of k] run [of k] unfolding closed [OF sn] by auto
        have b: "coversLine (jsxRanges st @ [newRange s 0 (n - 1) ?c]) k" if "k < Suc n" "?in k" for k
        proof -
          from that nin have kn: "k < n" by (cases "k = n") auto
          from cv [OF kn that(2)] Some kn show ?thesis unfolding closed [OF sn] by auto
        qed
        show ?thesis unfolding st jsxScanInv_def using dS a b by simp
      qed
    qed
  qed
qed

lemma jsx_fold_scan:
  "jsxScanInv fenced doc n
     (foldl (jsxStep fenced doc) \<lparr>jsxRanges = [], depth = 0, currentStart = None\<rparr> [0 ..< n])"
proof (induction n)
  case 0
  show ?case by (simp add: jsxScanInv_def)
next
  case (Suc n)
  from jsxStep_scan [OF Suc] show ?case by simp
qed

lemma jsx_ranges_cover:
  "coversLine (getJsxExpressionRanges doc fenced) i \<longleftrightarrow> i < length doc \<and> insideLine fenced doc i"
proof -
  let ?n = "length doc"
  let ?st = "foldl (jsxStep fenced doc)
               \<lparr>jsxRanges = [], depth = 0, currentStart = None\<rparr> [0 ..< ?n]"
  let ?in = "insideLine fenced doc"
  have inv: "jsxScanInv fenced doc ?n ?st" by (rule jsx_fold_scan)
  then have cl: "\<And>k. coversLine (jsxRanges ?st) k \<Longrightarrow> k < ?n \<and> ?in k"
    and cs: "\<And>s. currentStart ?st = Some s \<Longrightarrow> s < ?n \<and> (\<forall>k. s \<le> k \<and> k < ?n \<longrightarrow> ?in k)"
    and cv: "\<And>k. k < ?n \<Longrightarrow> ?in k \<Longrightarrow>
               coversLine (jsxRanges ?st) k \<or> (\<exists>s. currentStart ?st = Some s \<and> s \<le> k)"
    by (auto simp: jsxScanInv_def)
  show ?thesis
  proof (cases "currentStart ?st")
    case None
    then have g: "getJsxExpressionRanges doc fenced = jsxRanges ?st"
      by (simp add: getJsxExpressionRanges_def Let_def)
    show ?thesis unfolding g using cl [of i] cv [of i] None by auto
  next
    case (Some s)
    let ?c = "length (doc ! (?n - 1))"
    from cs [OF Some] have sn: "s < ?n" and run: "\<And>k. s \<le> k \<Longrightarrow> k < ?n \<Longrightarrow> ?in k" by auto
    from Some have g: "getJsxExpressionRanges doc fenced =
                        jsxRanges ?st @ [newRange s 0 (?n - 1) ?c]"
      by (simp add: getJsxExpressionRanges_def Let_def)
    from sn have "s \<le> ?n - 1" by simp
    from coversLine_snoc [OF this, of "jsxRanges ?st" ?c i] sn
    have cov: "coversLine (jsxRanges ?st @ [newRange s 0 (?n - 1) ?c]) i \<longleftrightarrow>
               coversLine (jsxRanges ?st) i \<or> (s \<le> i \<and> i < ?n)" by auto
    show ?thesis unfolding g cov using cl [of i] cv [of i] run [of i] Some by auto
  qed
qed

lemma jsx_depth_scan:
  "depth (foldl (jsxStep fenced doc) \<lparr>jsxRanges = [], depth = 0, currentStart = None\<rparr> [0 ..< n])
     = depthBefore fenced doc n"
  using jsx_fold_scan [of fenced doc n] by (simp add: jsxScanInv_def)

lemma jsxStep_on_fenced_line:
  assumes "findRangeContainingLine fenced i \<noteq> None"
  shows "depth (jsxStep fenced doc st i) = depth st"
    and "currentStart (jsxStep fenced doc st i) = None"
    and "jsxRanges (jsxStep fenced doc st i) =
           (case currentStart st of
              Some s \<Rightarrow> jsxRanges st @ [newRange s 0 (i - 1) (length (doc ! (i - 1)))]
            | None \<Rightarrow> jsxRanges st)"
  using assms by (auto simp: jsxStep_def split: option.splits)

lemma positive_depth_inside:
  assumes "findRangeContainingLine fenced i = None" "0 < depthBefore fenced doc i"
  shows "insideLine fenced doc i"
  using assms by (simp add: insideLine_def scanLine_keeps_inside)

text \<open>
  C1 (a fence closes the range in progress and keeps the depth).  No bracket-expression
  range contains a line of a fenced range.  A step of the scan on a fenced line leaves the
  brace-depth counter as it was, whatever the state, leaves no range in progress, and closes
  the range in progress, if there is one, at the line before.  So the counter before line
  \<open>n\<close> is \<open>depthBefore\<close>, which passes over fenced lines unchanged, and a line is in a
  bracket-expression range exactly when it is a line of the document, outside the fences,
  on which the scan entered with that depth is inside an expression.  In particular every
  line outside the fences that the scan reaches with a positive depth is in a range, also
  after a fence.
\<close>

theorem jsx_fence_closes_range_keeps_depth:
  "(\<forall>r\<in>set (getJsxExpressionRanges doc fenced).
      \<forall>l. lineOf (startOf r) \<le> l \<and> l \<le> lineOf (endOf r) \<longrightarrow>
          findRangeContainingLine fenced l = None) \<and>
   (\<forall>st i. findRangeContainingLine fenced i \<noteq> None \<longrightarrow>
      depth (jsxStep fenced doc st i) = depth st \<and>
      currentStart (jsxStep fenced doc st i) = None \<and>
      jsxRanges (jsxStep fenced doc st i) =
        (case currentStart st of
           Some s \<Rightarrow> jsxRanges st @ [newRange s 0 (i - 1) (length (doc ! (i - 1)))]
         | None \<Rightarrow> jsxRanges st)) \<and>
   (\<forall>n. depth (foldl (jsxStep fenced doc)
                  \<lparr>jsxRanges = [], depth = 0, currentStart = None\<rparr> [0 ..< n])
        = depthBefore fenced doc n) \<and>
   (\<forall>i. findRangeContainingLine (getJsxExpressionRanges doc fenced) i \<noteq> None \<longleftrightarrow>
        i < length doc \<and> insideLine fenced doc i) \<and>
   (\<forall>i. i < length doc \<and> findRangeContainingLine fenced i = None \<and>
        0 < depthBefore fenced doc i \<longrightarrow>
        findRangeContainingLine (getJsxExpressionRanges doc fenced) i \<noteq> None)"
proof (intro conjI allI impI)
  show "\<forall>r\<in>set (getJsxExpressionRanges doc fenced).
      \<forall>l. lineOf (startOf r) \<le> l \<and> l \<le> lineOf (endOf r) \<longrightarrow>
          findRangeContainingLine fenced l = None"
    using jsx_ranges_outside_fences [of doc fenced] by (simp add: outsideFences_def)
next
  fix st i assume f: "findRangeContainingLine fenced i \<noteq> None"
  show "depth (jsxStep fenced doc st i) = depth st" by (rule jsxStep_on_fenced_line(1) [OF f])
  show "currentStart (jsxStep fenced doc st i) = None" by (rule jsxStep_on_fenced_line(2) [OF f])
  show "jsxRanges (jsxStep fenced doc st i) =
        (case currentStart st of
           Some s \<Rightarrow> jsxRanges st @ [newRange s 0 (i - 1) (length (doc ! (i - 1)))]
         | None \<Rightarrow> jsxRanges st)" by (rule jsxStep_on_fenced_line(3) [OF f])
next
  fix n
  show "depth (foldl (jsxStep fenced doc)
                  \<lparr>jsxRanges = [], depth = 0, currentStart = None\<rparr> [0 ..< n])
        = depthBefore fenced doc n" by (rule jsx_depth_scan)
next
  fix i
  show "(findRangeContainingLine (getJsxExpressionRanges doc fenced) i \<noteq> None) =
        (i < length doc \<and> insideLine fenced doc i)"
    by (simp only: find_covers jsx_ranges_cover)
next
  fix i
  assume a: "i < length doc \<and> findRangeContainingLine fenced i = None \<and>
        0 < depthBefore fenced doc i"
  then have "insideLine fenced doc i" by (simp add: positive_depth_inside)
  with a show "findRangeContainingLine (getJsxExpressionRanges doc fenced) i \<noteq> None"
    by (simp only: find_covers jsx_ranges_cover)
qed

theorem jsx_fence_closes_range_keeps_depth_witness:
  "findRangeContainingLine
     (getJsxExpressionRanges [''{'', ''~~~'', ''x'', ''~~~'', ''after'']
        [Range (Position 1 0) (Position 3 3)]) 4 \<noteq> None \<and>
   depth (foldl (jsxStep [Range (Position 1 0) (Position 3 3)]
                   [''{'', ''~~~'', ''x'', ''~~~'', ''after''])
            \<lparr>jsxRanges = [], depth = 0, currentStart = None\<rparr> [0 ..< 4]) = 1 \<and>
   depth (jsxStep [Range (Position 1 0) (Position 3 3)]
            [''{'', ''~~~'', ''x'', ''~~~'', ''after'']
            \<lparr>jsxRanges = [], depth = 1, currentStart = Some 0\<rparr> 1) = 1 \<and>
   currentStart (jsxStep [Range (Position 1 0) (Position 3 3)]
            [''{'', ''~~~'', ''x'', ''~~~'', ''after'']
            \<lparr>jsxRanges = [], depth = 1, currentStart = Some 0\<rparr> 1) = None \<and>
   jsxRanges (jsxStep [Range (Position 1 0) (Position 3 3)]
            [''{'', ''~~~'', ''x'', ''~~~'', ''after'']
            \<lparr>jsxRanges = [], depth = 1, currentStart = Some 0\<rparr> 1)
     = [Range (Position 0 0) (Position 0 1)] \<and>
   findRangeContainingLine [Range (Position 1 0) (Position 3 3)] 0 = None"
proof -
  let ?D = "[''{'', ''~~~'', ''x'', ''~~~'', ''after'']"
  let ?F = "[Range (Position 1 0) (Position 3 3)]"
  let ?st = "\<lparr>jsxRanges = [], depth = 1, currentStart = Some 0\<rparr>"
  have mem: "Range (Position 0 0) (Position 0 1) \<in> set (getJsxExpressionRanges ?D ?F)"
    by code_simp
  have inf: "findRangeContainingLine ?F 1 \<noteq> None" by code_simp
  have out: "4 < length ?D \<and> findRangeContainingLine ?F 4 = None \<and> 0 < depthBefore ?F ?D 4"
    by code_simp
  have d4: "depthBefore ?F ?D 4 = 1" by code_simp
  have nr: "newRange 0 0 0 1 = Range (Position 0 0) (Position 0 1)"
    by code_simp
  from jsx_fence_closes_range_keeps_depth [of ?D ?F]
  have a: "\<forall>r\<in>set (getJsxExpressionRanges ?D ?F).
             \<forall>l. lineOf (startOf r) \<le> l \<and> l \<le> lineOf (endOf r) \<longrightarrow>
                 findRangeContainingLine ?F l = None"
    and b: "\<forall>st i. findRangeContainingLine ?F i \<noteq> None \<longrightarrow>
      depth (jsxStep ?F ?D st i) = depth st \<and>
      currentStart (jsxStep ?F ?D st i) = None \<and>
      jsxRanges (jsxStep ?F ?D st i) =
        (case currentStart st of
           Some s \<Rightarrow> jsxRanges st @ [newRange s 0 (i - 1) (length (?D ! (i - 1)))]
         | None \<Rightarrow> jsxRanges st)"
    and c: "\<forall>n. depth (foldl (jsxStep ?F ?D)
                  \<lparr>jsxRanges = [], depth = 0, currentStart = None\<rparr> [0 ..< n])
        = depthBefore ?F ?D n"
    and e: "\<forall>i. i < length ?D \<and> findRangeContainingLine ?F i = None \<and>
        0 < depthBefore ?F ?D i \<longrightarrow>
        findRangeContainingLine (getJsxExpressionRanges ?D ?F) i \<noteq> None"
    by blast+
  from e out have one: "findRangeContainingLine (getJsxExpressionRanges ?D ?F) 4 \<noteq> None"
    by blast
  from c d4 have two: "depth (foldl (jsxStep ?F ?D)
                  \<lparr>jsxRanges = [], depth = 0, currentStart = None\<rparr> [0 ..< 4]) = 1"
    by simp
  from b inf have "depth (jsxStep ?F ?D ?st 1) = depth ?st \<and>
      currentStart (jsxStep ?F ?D ?st 1) = None \<and>
      jsxRanges (jsxStep ?F ?D ?st 1) =
        (case currentStart ?st of
           Some s \<Rightarrow> jsxRanges ?st @ [newRange s 0 (1 - 1) (length (?D ! (1 - 1)))]
         | None \<Rightarrow> jsxRanges ?st)"
    by blast
  then have three: "depth (jsxStep ?F ?D ?st 1) = 1 \<and>
      currentStart (jsxStep ?F ?D ?st 1) = None \<and>
      jsxRanges (jsxStep ?F ?D ?st 1) = [Range (Position 0 0) (Position 0 1)]"
    using nr by simp
  from a mem have "\<forall>l. lineOf (startOf (Range (Position 0 0) (Position 0 1))) \<le> l \<and>
      l \<le> lineOf (endOf (Range (Position 0 0) (Position 0 1))) \<longrightarrow>
      findRangeContainingLine ?F l = None" by blast
  then have four: "findRangeContainingLine ?F 0 = None" by simp
  from one two three four show ?thesis by blast
qed

text \<open>
  The depth is not cleared: an unmatched brace before a fence puts the line after the fence
  into a bracket-expression range; without the brace there is no range.
\<close>

theorem fence_does_not_clear_depth_counterexample:
  "getFencedCodeBlockRanges [''{'', ''~~~'', ''x'', ''~~~'', ''after'']
     = [Range (Position 1 0) (Position 3 3)] \<and>
   getJsxExpressionRanges [''{'', ''~~~'', ''x'', ''~~~'', ''after'']
     (getFencedCodeBlockRanges [''{'', ''~~~'', ''x'', ''~~~'', ''after''])
     = [Range (Position 0 0) (Position 0 1), Range (Position 4 0) (Position 4 5)] \<and>
   findRangeContainingLine
     (getJsxExpressionRanges [''{'', ''~~~'', ''x'', ''~~~'', ''after'']
        (getFencedCodeBlockRanges [''{'', ''~~~'', ''x'', ''~~~'', ''after''])) 4 \<noteq> None \<and>
   getJsxExpressionRanges [''('', ''~~~'', ''x'', ''~~~'', ''after'']
     (getFencedCodeBlockRanges [''('', ''~~~'', ''x'', ''~~~'', ''after'']) = []"
  by code_simp












section \<open>Properties of the edit planner\<close>

lemma find_containing_Some:
  "findRangeContainingLine rs i = Some r \<Longrightarrow> lineOf (startOf r) \<le> i \<and> i \<le> lineOf (endOf r)"
  by (auto simp: findRangeContainingLine_def find_Some_iff)

lemma lineAt_Some: "lineAt doc i = Some t \<Longrightarrow> i < length doc \<and> t = doc ! i"
  by (auto simp: lineAt_def split: if_splits)

lemma planStep_advances:
  assumes "resolvesAround T doc"
    and "planStep T cfg doc fm fenced jsxExpr hasRange startLine endLine i edits = Continue i' edits'"
  shows "i < i'"
proof (cases "case fm of Some r \<Rightarrow> i \<ge> lineOf (startOf r) \<and> i \<le> lineOf (endOf r) | None \<Rightarrow> False")
  case True
  then obtain r where "fm = Some r" "i \<le> lineOf (endOf r)" by (cases fm) auto
  with assms(2) True show ?thesis by (simp add: planStep_def)
next
  case nofm: False
  show ?thesis
  proof (cases "findRangeContainingLine fenced i")
    case (Some r)
    with assms(2) nofm find_containing_Some [OF Some] show ?thesis
      by (simp add: planStep_def)
  next
    case nofence: None
    show ?thesis
    proof (cases "findRangeContainingLine jsxExpr i")
      case (Some r)
      with assms(2) nofm nofence find_containing_Some [OF Some] show ?thesis
        by (simp add: planStep_def)
    next
      case nojsx: None
      show ?thesis
      proof (cases "lineAt doc i")
        case None
        with assms(2) nofm nofence nojsx show ?thesis by (simp add: planStep_def)
      next
        case (Some t)
        then have "i < length doc" by (simp add: lineAt_Some)
        with assms(1) have e: "i \<le> getEndLine T doc i" by (simp add: resolvesAround_def)
        from assms(2) nofm nofence nojsx Some have "i' = getEndLine T doc i + 1"
          by (auto simp: planStep_def Let_def split: if_splits option.splits bool.splits)
        with e show ?thesis by simp
      qed
    qed
  qed
qed

lemma planStep_new_edit:
  assumes "planStep T cfg doc fm fenced jsxExpr hasRange startLine endLine i edits = Continue i' edits'
         \<or> planStep T cfg doc fm fenced jsxExpr hasRange startLine endLine i edits = Break edits'"
  shows "edits' = edits \<or>
         (i < length doc \<and>
          (\<exists>t. lineAt doc (getEndLine T doc i) = Some t \<and>
            shouldSkipParagraph T
              \<lparr>document = doc, lineStart = getStartLine T doc i, lineEnd = getEndLine T doc i,
               fencedRanges = fenced, jsxExprRanges = jsxExpr, frontMatterRange = fm,
               settings = cfg\<rparr> = Some False \<and>
            (hasRange \<longrightarrow> startLine \<le> getStartLine T doc i \<and> int (getEndLine T doc i) \<le> endLine) \<and>
            (\<exists>replacement. edits' = edits @
               [TextEdit (newRange (getStartLine T doc i) 0 (getEndLine T doc i) (length t)) replacement])))"
  using assms
  by (auto simp: planStep_def Let_def lineAt_def split: if_splits option.splits bool.splits)

lemma planStep_edits:
  assumes "\<forall>ed\<in>set edits. plannedEdit T cfg doc fm fenced jsxExpr hasRange startLine endLine ed"
    and "planStep T cfg doc fm fenced jsxExpr hasRange startLine endLine i edits = Continue i' edits'
         \<or> planStep T cfg doc fm fenced jsxExpr hasRange startLine endLine i edits = Break edits'"
  shows "\<forall>ed\<in>set edits'. plannedEdit T cfg doc fm fenced jsxExpr hasRange startLine endLine ed"
proof (cases "edits' = edits")
  case True
  with assms(1) show ?thesis by simp
next
  case False
  let ?s = "getStartLine T doc i" and ?e = "getEndLine T doc i"
  let ?ctx = "\<lparr>document = doc, lineStart = ?s, lineEnd = ?e, fencedRanges = fenced,
                jsxExprRanges = jsxExpr, frontMatterRange = fm, settings = cfg\<rparr>"
  from planStep_new_edit [OF assms(2)] False obtain t replacement where
    i: "i < length doc" and last: "lineAt doc ?e = Some t"
    and skip: "shouldSkipParagraph T ?ctx = Some False"
    and rng: "hasRange \<longrightarrow> startLine \<le> ?s \<and> int ?e \<le> endLine"
    and ed: "edits' = edits @ [TextEdit (newRange ?s 0 ?e (length t)) replacement]"
    by blast
  from i last skip rng
  have "plannedEdit T cfg doc fm fenced jsxExpr hasRange startLine endLine
          (TextEdit (newRange ?s 0 ?e (length t)) replacement)"
    unfolding plannedEdit_def by (intro exI [of _ i] exI [of _ t]) simp
  with assms(1) ed show ?thesis by simp
qed

lemma planLoop_returns:
  assumes adv: "\<And>i edits i' edits'. body i edits = Continue i' edits' \<Longrightarrow> i < i'"
    and keep: "\<And>i edits i' edits'. Inv edits \<Longrightarrow>
                 body i edits = Continue i' edits' \<or> body i edits = Break edits' \<Longrightarrow> Inv edits'"
    and "Inv edits"
  shows "\<exists>outcome. planLoop body endLine i edits = Some outcome \<and>
           (\<forall>res. outcome = Returned res \<longrightarrow> Inv res)"
  using assms(3)
proof (induction "nat (endLine + 1 - int i)" arbitrary: i edits rule: less_induct)
  case less
  show ?case
  proof (cases "int i \<le> endLine")
    case False
    with less.prems show ?thesis by (subst planLoop.simps) simp
  next
    case True
    show ?thesis
    proof (cases "body i edits")
      case (Continue i' edits')
      from adv [OF Continue] True have "nat (endLine + 1 - int i') < nat (endLine + 1 - int i)"
        by simp
      moreover have "Inv edits'" by (rule keep [OF less.prems disjI1 [OF Continue]])
      ultimately have "\<exists>outcome. planLoop body endLine i' edits' = Some outcome \<and>
           (\<forall>res. outcome = Returned res \<longrightarrow> Inv res)"
        by (rule less.hyps)
      with True Continue show ?thesis by (subst planLoop.simps) simp
    next
      case (Break edits')
      have "Inv edits'" by (rule keep [OF less.prems disjI2 [OF Break]])
      with True Break show ?thesis by (subst planLoop.simps) simp
    next
      case Throw
      with True show ?thesis by (subst planLoop.simps) simp
    qed
  qed
qed

lemma computeReflowEdits_planned:
  assumes "resolvesAround T doc"
  shows "\<exists>outcome. computeReflowEdits T doc targetRange cfg = Some outcome \<and>
           (\<forall>edits. outcome = Returned edits \<longrightarrow>
              (\<forall>ed\<in>set edits.
                 plannedEdit T cfg doc (getFrontMatterRange doc) (getFencedCodeBlockRanges doc)
                   (getJsxExpressionRanges doc (getFencedCodeBlockRanges doc))
                   (targetRange \<noteq> None)
                   (case targetRange of Some r \<Rightarrow> lineOf (startOf r) | None \<Rightarrow> 0)
                   (case targetRange of Some r \<Rightarrow> int (lineOf (endOf r))
                    | None \<Rightarrow> int (length doc) - 1) ed))"
proof -
  let ?fm = "getFrontMatterRange doc"
  let ?fenced = "getFencedCodeBlockRanges doc"
  let ?jsx = "getJsxExpressionRanges doc ?fenced"
  let ?has = "targetRange \<noteq> None"
  let ?start = "case targetRange of Some r \<Rightarrow> lineOf (startOf r) | None \<Rightarrow> 0"
  let ?end = "case targetRange of Some r \<Rightarrow> int (lineOf (endOf r)) | None \<Rightarrow> int (length doc) - 1"
  let ?body = "planStep T cfg doc ?fm ?fenced ?jsx ?has ?start ?end"
  let ?Inv = "\<lambda>edits. \<forall>ed\<in>set edits. plannedEdit T cfg doc ?fm ?fenced ?jsx ?has ?start ?end ed"
  have loop: "\<exists>outcome. planLoop ?body ?end i [] = Some outcome \<and>
           (\<forall>res. outcome = Returned res \<longrightarrow> ?Inv res)" for i
  proof (rule planLoop_returns [where Inv = ?Inv])
    show "\<And>i edits i' edits'. ?body i edits = Continue i' edits' \<Longrightarrow> i < i'"
      by (rule planStep_advances [OF assms])
    show "\<And>i edits i' edits'. ?Inv edits \<Longrightarrow>
            ?body i edits = Continue i' edits' \<or> ?body i edits = Break edits' \<Longrightarrow> ?Inv edits'"
      by (rule planStep_edits)
    show "?Inv []" by simp
  qed
  show ?thesis
  proof (cases "?has \<and> (case ?fm of Some r \<Rightarrow> containsRange r (the targetRange) | None \<Rightarrow> False)")
    case True
    then show ?thesis by (simp add: computeReflowEdits_def Let_def)
  next
    case False
    then show ?thesis
      unfolding computeReflowEdits_def Let_def using loop by (simp only: if_False)
  qed
qed

lemma exampleTestable_resolvesAround: "resolvesAround exampleTestable doc"
  by (simp add: resolvesAround_def exampleTestable_def)

lemma orElse_False: "orElse a b = Some False \<Longrightarrow> a = Some False \<and> b = Some False"
  by (auto simp: orElse_def split: option.splits bool.splits)

lemma anyLineIn_False:
  "anyLineIn test doc ks = Some False \<Longrightarrow> \<forall>k\<in>set ks. k < length doc \<and> \<not> test (doc ! k)"
  by (induction ks) (auto simp: lineAt_def split: if_splits)

lemma shouldSkipParagraph_False:
  assumes "shouldSkipParagraph T ctx = Some False"
  shows "\<forall>k. lineStart ctx \<le> k \<and> k \<le> lineEnd ctx \<longrightarrow>
             k < length (document ctx) \<and> \<not> hasTrigger (document ctx ! k)"
    and "lineStart ctx = lineEnd ctx \<Longrightarrow>
           \<not> lineStartsWithTripleColon (document ctx ! lineStart ctx) \<and>
           \<not> lineIsXmlTagOnly (document ctx ! lineStart ctx)"
proof -
  let ?ks = "[lineStart ctx ..< Suc (lineEnd ctx)]"
  let ?d = "document ctx"
  note o = orElse_False
  from assms have
    h: "anyLineIn ATX_HEADING_RE ?d ?ks = Some False" and
    m: "anyLineIn MDX_IMPORT_RE ?d ?ks = Some False" and
    f: "anyLineIn FOOTNOTE_DEF_RE ?d ?ks = Some False" and
    t: "anyLineIn (\<lambda>t. MD_TABLE_SEPARATOR_RE t \<or> MD_TABLE_ROW_RE t) ?d ?ks = Some False" and
    l: "anyLineIn LIST_LINK_ONLY_RE ?d ?ks = Some False" and
    c: "(if lineStart ctx = lineEnd ctx
         then map_option lineStartsWithTripleColon (lineAt ?d (lineStart ctx))
         else Some False) = Some False" and
    x: "(if lineStart ctx = lineEnd ctx
         then map_option lineIsXmlTagOnly (lineAt ?d (lineStart ctx))
         else Some False) = Some False"
    unfolding shouldSkipParagraph_def paragraphHasAtxHeading_def paragraphHasMdxImport_def
      paragraphHasFootnoteDef_def paragraphHasMarkdownTable_def paragraphHasListLinkOnly_def
    by (blast dest: o)+
  show "\<forall>k. lineStart ctx \<le> k \<and> k \<le> lineEnd ctx \<longrightarrow> k < length ?d \<and> \<not> hasTrigger (?d ! k)"
  proof (intro allI impI)
    fix k
    assume "lineStart ctx \<le> k \<and> k \<le> lineEnd ctx"
    then have k: "k \<in> set ?ks" by auto
    from anyLineIn_False [OF h] anyLineIn_False [OF m] anyLineIn_False [OF f]
      anyLineIn_False [OF t] anyLineIn_False [OF l] k
    show "k < length ?d \<and> \<not> hasTrigger (?d ! k)"
      unfolding hasTrigger_def by blast
  qed
  show "\<not> lineStartsWithTripleColon (?d ! lineStart ctx) \<and> \<not> lineIsXmlTagOnly (?d ! lineStart ctx)"
    if "lineStart ctx = lineEnd ctx"
    using c x that by (auto simp: lineAt_def split: if_splits)
qed

lemma plannedEdit_facts:
  assumes "resolvesAround T doc"
    and "plannedEdit T cfg doc fm fenced jsxExpr hasRange startLine endLine ed"
  shows "\<exists>s e. s \<le> e \<and> lineOf (startOf (editRange ed)) = s \<and> lineOf (endOf (editRange ed)) = e \<and>
           (hasRange \<longrightarrow> startLine \<le> s \<and> int e \<le> endLine) \<and>
           shouldSkipParagraph T
             \<lparr>document = doc, lineStart = s, lineEnd = e, fencedRanges = fenced,
              jsxExprRanges = jsxExpr, frontMatterRange = fm, settings = cfg\<rparr> = Some False"
  using assms(2) unfolding plannedEdit_def
proof (elim exE conjE)
  fix i t
  assume i: "i < length doc"
    and r: "editRange ed = newRange (getStartLine T doc i) 0 (getEndLine T doc i) (length t)"
    and rng: "hasRange \<longrightarrow> startLine \<le> getStartLine T doc i \<and> int (getEndLine T doc i) \<le> endLine"
    and skip: "shouldSkipParagraph T
          \<lparr>document = doc, lineStart = getStartLine T doc i, lineEnd = getEndLine T doc i,
           fencedRanges = fenced, jsxExprRanges = jsxExpr, frontMatterRange = fm,
           settings = cfg\<rparr> = Some False"
  from assms(1) i have "getStartLine T doc i \<le> i" "i \<le> getEndLine T doc i"
    unfolding resolvesAround_def by simp_all
  then have se: "getStartLine T doc i \<le> getEndLine T doc i" by (rule le_trans)
  from newRange_lines [OF se, of "length t"]
  have ls: "lineOf (startOf (editRange ed)) = getStartLine T doc i"
    and le: "lineOf (endOf (editRange ed)) = getEndLine T doc i"
    unfolding r by simp_all
  show ?thesis
    unfolding ls le
    by (rule exI [of _ "getStartLine T doc i"], rule exI [of _ "getEndLine T doc i"])
       (intro conjI se refl rng skip)
qed

lemma plannedEdit_unit:
  assumes "resolvesAround T doc"
    and "plannedEdit T cfg doc fm fenced jsxExpr hasRange startLine endLine ed"
  shows "\<forall>k. lineOf (startOf (editRange ed)) \<le> k \<and> k \<le> lineOf (endOf (editRange ed)) \<longrightarrow>
             k < length doc \<and> \<not> hasTrigger (doc ! k)"
    and "lineOf (startOf (editRange ed)) = lineOf (endOf (editRange ed)) \<Longrightarrow>
           \<not> lineStartsWithTripleColon (doc ! lineOf (startOf (editRange ed))) \<and>
           \<not> lineIsXmlTagOnly (doc ! lineOf (startOf (editRange ed)))"
    and "hasRange \<Longrightarrow> startLine \<le> lineOf (startOf (editRange ed)) \<and>
                        int (lineOf (endOf (editRange ed))) \<le> endLine"
proof -
  from plannedEdit_facts [OF assms] obtain s e where
    s: "lineOf (startOf (editRange ed)) = s" and e: "lineOf (endOf (editRange ed)) = e"
    and rng: "hasRange \<longrightarrow> startLine \<le> s \<and> int e \<le> endLine"
    and skip: "shouldSkipParagraph T
             \<lparr>document = doc, lineStart = s, lineEnd = e, fencedRanges = fenced,
              jsxExprRanges = jsxExpr, frontMatterRange = fm, settings = cfg\<rparr> = Some False"
    by blast
  from shouldSkipParagraph_False(1) [OF skip]
  show "\<forall>k. lineOf (startOf (editRange ed)) \<le> k \<and> k \<le> lineOf (endOf (editRange ed)) \<longrightarrow>
             k < length doc \<and> \<not> hasTrigger (doc ! k)"
    by (simp add: s e)
  from shouldSkipParagraph_False(2) [OF skip]
  show "lineOf (startOf (editRange ed)) = lineOf (endOf (editRange ed)) \<Longrightarrow>
           \<not> lineStartsWithTripleColon (doc ! lineOf (startOf (editRange ed))) \<and>
           \<not> lineIsXmlTagOnly (doc ! lineOf (startOf (editRange ed)))"
    by (simp add: s e)
  from rng show "hasRange \<Longrightarrow> startLine \<le> lineOf (startOf (editRange ed)) \<and>
                        int (lineOf (endOf (editRange ed))) \<le> endLine"
    by (simp add: s e)
qed




text \<open>
  C10 (tag-only and comment-only lines).  With a resolver whose extents contain their seed
  line, in a whole-document pass and in a range pass alike, no returned edit is the edit of
  a single line that consists of one XML or HTML tag or of one HTML comment.
\<close>

theorem planner_skips_xml_tag_lines:
  assumes "resolvesAround T doc"
  shows "\<exists>outcome. computeReflowEdits T doc targetRange cfg = Some outcome \<and>
           (\<forall>edits. outcome = Returned edits \<longrightarrow>
              (\<forall>ed\<in>set edits.
                 lineOf (startOf (editRange ed)) = lineOf (endOf (editRange ed)) \<longrightarrow>
                   \<not> lineIsXmlTagOnly (doc ! lineOf (startOf (editRange ed)))))"
proof -
  let ?P = "plannedEdit T cfg doc (getFrontMatterRange doc) (getFencedCodeBlockRanges doc)
                   (getJsxExpressionRanges doc (getFencedCodeBlockRanges doc))
                   (targetRange \<noteq> None)
                   (case targetRange of Some r \<Rightarrow> lineOf (startOf r) | None \<Rightarrow> 0)
                   (case targetRange of Some r \<Rightarrow> int (lineOf (endOf r))
                    | None \<Rightarrow> int (length doc) - 1)"
  from computeReflowEdits_planned [OF assms, of targetRange cfg] obtain outcome where
    c: "computeReflowEdits T doc targetRange cfg = Some outcome"
    and p: "\<forall>edits. outcome = Returned edits \<longrightarrow> (\<forall>ed\<in>set edits. ?P ed)"
    by blast
  have "lineOf (startOf (editRange ed)) = lineOf (endOf (editRange ed)) \<longrightarrow>
             \<not> lineIsXmlTagOnly (doc ! lineOf (startOf (editRange ed)))"
    if "outcome = Returned edits" "ed \<in> set edits" for edits ed
  proof -
    from p that have pe: "?P ed" by simp
    from plannedEdit_unit(2) [OF assms pe] show ?thesis by simp
  qed
  with c show ?thesis by simp
qed

theorem planner_skips_xml_tag_lines_witness:
  "(\<exists>outcome.
      computeReflowEdits exampleTestable
        [''<div class=x>'', '''', ''<!-- a comment that is rather long -->'', '''',
         ''plain words that are longer than twenty'']
        (Some (Range (Position 0 0) (Position 4 39)))
        \<lparr>preferredLineLength = 20, doubleSpaceBetweenSentences = False,
           neverReflowFirstParagraph = False\<rparr> = Some outcome \<and>
      (\<forall>edits. outcome = Returned edits \<longrightarrow>
         (\<forall>ed\<in>set edits.
            lineOf (startOf (editRange ed)) = lineOf (endOf (editRange ed)) \<longrightarrow>
              \<not> lineIsXmlTagOnly
                  ([''<div class=x>'', '''', ''<!-- a comment that is rather long -->'', '''',
                    ''plain words that are longer than twenty'']
                   ! lineOf (startOf (editRange ed)))))) \<and>
   computeReflowEdits exampleTestable
     [''<div class=x>'', '''', ''<!-- a comment that is rather long -->'', '''',
      ''plain words that are longer than twenty'']
     (Some (Range (Position 0 0) (Position 4 39)))
     \<lparr>preferredLineLength = 20, doubleSpaceBetweenSentences = False,
        neverReflowFirstParagraph = False\<rparr>
   = Some (Returned [TextEdit (Range (Position 4 0) (Position 4 39))
                       (''plain words that are'' @ [CHR 0x0A] @ ''longer than twenty'')])"
proof (rule conjI)
  show "computeReflowEdits exampleTestable
     [''<div class=x>'', '''', ''<!-- a comment that is rather long -->'', '''',
      ''plain words that are longer than twenty'']
     (Some (Range (Position 0 0) (Position 4 39)))
     \<lparr>preferredLineLength = 20, doubleSpaceBetweenSentences = False,
        neverReflowFirstParagraph = False\<rparr>
   = Some (Returned [TextEdit (Range (Position 4 0) (Position 4 39))
                       (''plain words that are'' @ [CHR 0x0A] @ ''longer than twenty'')])"
    by code_simp
qed (rule planner_skips_xml_tag_lines [OF exampleTestable_resolvesAround])

lemma planStep_outside_range:
  assumes "\<not> (case fm of Some r \<Rightarrow> i \<ge> lineOf (startOf r) \<and> i \<le> lineOf (endOf r) | None \<Rightarrow> False)"
    and "findRangeContainingLine fenced i = None" "findRangeContainingLine jsxExpr i = None"
    and "i < length doc"
    and "\<not> (startLine \<le> getStartLine T doc i \<and> int (getEndLine T doc i) \<le> endLine)"
  shows "planStep T cfg doc fm fenced jsxExpr True startLine endLine i edits =
           (if getEndLine T doc i < startLine then Continue (getEndLine T doc i + 1) edits
            else if int (getStartLine T doc i) > endLine then Break edits
            else Continue (getEndLine T doc i + 1) edits)"
  using assms by (auto simp: planStep_def lineAt_def Let_def)

text \<open>
  C8 (edits stay inside the requested range).  With a resolver whose extents contain their
  seed line, a range pass ends, and every edit it returns starts and ends on lines of the
  requested range; at a cursor line outside the structural
  ranges whose extent is not inside the requested range, the loop goes on after the extent
  without an edit when the extent ends before the range or crosses a boundary, and stops
  when the extent starts after the range.
\<close>

theorem range_pass_edits_inside_range:
  assumes "resolvesAround T doc"
  shows "(\<exists>outcome. computeReflowEdits T doc (Some r) cfg = Some outcome \<and>
           (\<forall>edits. outcome = Returned edits \<longrightarrow>
              (\<forall>ed\<in>set edits.
                 lineOf (startOf r) \<le> lineOf (startOf (editRange ed)) \<and>
                 lineOf (endOf (editRange ed)) \<le> lineOf (endOf r)))) \<and>
         (\<forall>fm fenced jsxExpr startLine endLine i edits.
            \<not> (case fm of Some r \<Rightarrow> i \<ge> lineOf (startOf r) \<and> i \<le> lineOf (endOf r) | None \<Rightarrow> False) \<and>
            findRangeContainingLine fenced i = None \<and> findRangeContainingLine jsxExpr i = None \<and>
            i < length doc \<and>
            \<not> (startLine \<le> getStartLine T doc i \<and> int (getEndLine T doc i) \<le> endLine) \<longrightarrow>
            planStep T cfg doc fm fenced jsxExpr True startLine endLine i edits =
              (if getEndLine T doc i < startLine then Continue (getEndLine T doc i + 1) edits
               else if int (getStartLine T doc i) > endLine then Break edits
               else Continue (getEndLine T doc i + 1) edits))"
proof (intro conjI)
  let ?P = "plannedEdit T cfg doc (getFrontMatterRange doc) (getFencedCodeBlockRanges doc)
                   (getJsxExpressionRanges doc (getFencedCodeBlockRanges doc))
                   True (lineOf (startOf r)) (int (lineOf (endOf r)))"
  from computeReflowEdits_planned [OF assms, of "Some r" cfg] obtain outcome where
    c: "computeReflowEdits T doc (Some r) cfg = Some outcome"
    and p: "\<forall>edits. outcome = Returned edits \<longrightarrow> (\<forall>ed\<in>set edits. ?P ed)"
    by auto
  have "lineOf (startOf r) \<le> lineOf (startOf (editRange ed)) \<and>
        lineOf (endOf (editRange ed)) \<le> lineOf (endOf r)"
    if "outcome = Returned edits" "ed \<in> set edits" for edits ed
  proof -
    from p that have pe: "?P ed" by simp
    from plannedEdit_unit(3) [OF assms pe] show ?thesis by simp
  qed
  with c show "\<exists>outcome. computeReflowEdits T doc (Some r) cfg = Some outcome \<and>
           (\<forall>edits. outcome = Returned edits \<longrightarrow>
              (\<forall>ed\<in>set edits.
                 lineOf (startOf r) \<le> lineOf (startOf (editRange ed)) \<and>
                 lineOf (endOf (editRange ed)) \<le> lineOf (endOf r)))"
    by simp
next
  show "\<forall>fm fenced jsxExpr startLine endLine i edits.
            \<not> (case fm of Some r \<Rightarrow> i \<ge> lineOf (startOf r) \<and> i \<le> lineOf (endOf r) | None \<Rightarrow> False) \<and>
            findRangeContainingLine fenced i = None \<and> findRangeContainingLine jsxExpr i = None \<and>
            i < length doc \<and>
            \<not> (startLine \<le> getStartLine T doc i \<and> int (getEndLine T doc i) \<le> endLine) \<longrightarrow>
            planStep T cfg doc fm fenced jsxExpr True startLine endLine i edits =
              (if getEndLine T doc i < startLine then Continue (getEndLine T doc i + 1) edits
               else if int (getStartLine T doc i) > endLine then Break edits
               else Continue (getEndLine T doc i + 1) edits)"
    using planStep_outside_range by blast
qed

theorem range_pass_edits_inside_range_witness:
  "(\<exists>outcome.
      computeReflowEdits exampleTestable
        [''first paragraph line one'', ''first paragraph line two'', '''',
         ''second paragraph with many words'', '''', ''third paragraph that is long'']
        (Some (Range (Position 1 0) (Position 3 5)))
        \<lparr>preferredLineLength = 20, doubleSpaceBetweenSentences = False,
           neverReflowFirstParagraph = False\<rparr> = Some outcome \<and>
      (\<forall>edits. outcome = Returned edits \<longrightarrow>
         (\<forall>ed\<in>set edits.
            lineOf (startOf (Range (Position 1 0) (Position 3 5)))
              \<le> lineOf (startOf (editRange ed)) \<and>
            lineOf (endOf (editRange ed))
              \<le> lineOf (endOf (Range (Position 1 0) (Position 3 5)))))) \<and>
   computeReflowEdits exampleTestable
     [''first paragraph line one'', ''first paragraph line two'', '''',
      ''second paragraph with many words'', '''', ''third paragraph that is long'']
     (Some (Range (Position 1 0) (Position 3 5)))
     \<lparr>preferredLineLength = 20, doubleSpaceBetweenSentences = False,
        neverReflowFirstParagraph = False\<rparr>
   = Some (Returned [TextEdit (Range (Position 3 0) (Position 3 32))
                       (''second paragraph'' @ [CHR 0x0A] @ ''with many words'')])"
proof (rule conjI)
  show "computeReflowEdits exampleTestable
     [''first paragraph line one'', ''first paragraph line two'', '''',
      ''second paragraph with many words'', '''', ''third paragraph that is long'']
     (Some (Range (Position 1 0) (Position 3 5)))
     \<lparr>preferredLineLength = 20, doubleSpaceBetweenSentences = False,
        neverReflowFirstParagraph = False\<rparr>
   = Some (Returned [TextEdit (Range (Position 3 0) (Position 3 32))
                       (''second paragraph'' @ [CHR 0x0A] @ ''with many words'')])"
    by code_simp
qed (rule conjunct1 [OF range_pass_edits_inside_range [OF exampleTestable_resolvesAround]])

text \<open>
  C9 (termination).  With a resolver whose extents contain their seed line, the planner
  returns on every document and every requested range, and every turn of its loop that goes
  on moves the cursor to a later line.
\<close>

theorem planner_terminates:
  assumes "resolvesAround T doc"
  shows "(\<exists>outcome. computeReflowEdits T doc targetRange cfg = Some outcome) \<and>
         (\<forall>fm fenced jsxExpr hasRange startLine endLine i edits i' edits'.
            planStep T cfg doc fm fenced jsxExpr hasRange startLine endLine i edits
              = Continue i' edits' \<longrightarrow> i < i')"
  using computeReflowEdits_planned [OF assms, of targetRange cfg] planStep_advances [OF assms]
  by blast

theorem planner_terminates_witness:
  "(\<exists>outcome.
      computeReflowEdits exampleTestable
        [''---'', ''title: x'', ''---'', '''', ''a paragraph that is long enough'', '''', ''~~~'',
         ''code'', ''~~~'', '''', ''open { brace'', ''close } brace'', '''',
         ''the last paragraph of the text'']
        None
        \<lparr>preferredLineLength = 20, doubleSpaceBetweenSentences = False,
           neverReflowFirstParagraph = False\<rparr> = Some outcome) \<and>
   computeReflowEdits exampleTestable
     [''---'', ''title: x'', ''---'', '''', ''a paragraph that is long enough'', '''', ''~~~'',
         ''code'', ''~~~'', '''', ''open { brace'', ''close } brace'', '''',
         ''the last paragraph of the text'']
     None
     \<lparr>preferredLineLength = 20, doubleSpaceBetweenSentences = False,
        neverReflowFirstParagraph = False\<rparr>
   = Some (Returned [TextEdit (Range (Position 4 0) (Position 4 31))
                       (''a paragraph that is'' @ [CHR 0x0A] @ ''long enough''),
                     TextEdit (Range (Position 13 0) (Position 13 30))
                       (''the last paragraph'' @ [CHR 0x0A] @ ''of the text'')])"
proof (rule conjI)
  show "computeReflowEdits exampleTestable
     [''---'', ''title: x'', ''---'', '''', ''a paragraph that is long enough'', '''', ''~~~'',
         ''code'', ''~~~'', '''', ''open { brace'', ''close } brace'', '''',
         ''the last paragraph of the text'']
     None
     \<lparr>preferredLineLength = 20, doubleSpaceBetweenSentences = False,
        neverReflowFirstParagraph = False\<rparr>
   = Some (Returned [TextEdit (Range (Position 4 0) (Position 4 31))
                       (''a paragraph that is'' @ [CHR 0x0A] @ ''long enough''),
                     TextEdit (Range (Position 13 0) (Position 13 30))
                       (''the last paragraph'' @ [CHR 0x0A] @ ''of the text'')])"
    by code_simp
qed (rule conjunct1 [OF planner_terminates [OF exampleTestable_resolvesAround]])

section \<open>The interactive command and the settings\<close>

text \<open>
  C2 (double space between sentences).  The interactive command hands \<open>reflowLines\<close> the
  preferred line length only: with \<open>doubleSpaceBetweenSentences\<close> enabled, the word that
  follows a full stop is still joined to it by one space.
\<close>

theorem reflow_ignores_double_space:
  "reflow exampleTestable
     \<lparr>preferredLineLength = 80, doubleSpaceBetweenSentences = True,
        neverReflowFirstParagraph = False\<rparr>
     [''Hi. There.''] (Position 0 0)
   = Returned (Some (TextEdit (Range (Position 0 0) (Position 0 10)) ''Hi. There.''))"
  by code_simp

end
